theory Spec2Isabelle
  imports Main
begin

section \<open>Data structures\<close>

text \<open>
  The process monitor of \<^verbatim>\<open>Banking_Management_System_Linux.c\<close> builds a tree of
  \<^verbatim>\<open>ProcessNode\<close>s that point at each other. Every node the program creates is put
  into \<^verbatim>\<open>collection->nodes\<close> at once and never removed, so a \<^verbatim>\<open>ProcessNode*\<close> is
  modelled as the index of the node in that array, \<^verbatim>\<open>NULL\<close> as \<open>None\<close>.
  \<^verbatim>\<open>child_count\<close> is the length of \<open>children\<close> and \<^verbatim>\<open>collection->size\<close> the length of
  \<open>nodes\<close>; the capacities only drive \<^verbatim>\<open>realloc\<close> and are left out (a failed
  allocation exits the program). Process ids are C \<^verbatim>\<open>int\<close>s that are only compared,
  never computed with, so they are \<open>int\<close>. \<^verbatim>\<open>defunct_flag\<close> only ever holds the value of
  \<^verbatim>\<open>strchr(buffer, 'Z') != NULL\<close> or 0 and is only tested for truth: a \<open>bool\<close>.
\<close>

record ProcessMetadata =
  id' :: int
  parent_id :: int
  defunct_flag :: bool

record ProcessNode =
  data :: ProcessMetadata
  parent :: "nat option"
  children :: "nat list"

record ProcessCollection =
  nodes :: "ProcessNode list"
  root :: "nat option"

text \<open>
  The \<^verbatim>\<open>/proc\<close> file system as one snapshot: \<open>entries\<close> is what \<^verbatim>\<open>readdir\<close> yields, in its
  order, as the value \<^verbatim>\<open>atoi(entry->d_name)\<close> of every entry with \<^verbatim>\<open>d_type == DT_DIR\<close>;
  \<open>status p\<close> is what \<^verbatim>\<open>fetch_process_data\<close> reads from \<^verbatim>\<open>/proc/p/status\<close>: \<open>None\<close> when
  the file cannot be opened, otherwise the parent id (\<open>-1\<close> when there is no \<^verbatim>\<open>PPid:\<close>
  line) and the zombie flag. \<^verbatim>\<open>opendir("/proc")\<close> is taken to succeed.
\<close>

record snapshot =
  entries :: "int list"
  status :: "int \<Rightarrow> (int \<times> bool) option"

section \<open>Process node and collection functions\<close>

definition create_node :: "int \<Rightarrow> int \<Rightarrow> bool \<Rightarrow> ProcessNode" where
  "create_node pid ppid zombie_status =
     \<lparr>data = \<lparr>id' = pid, parent_id = ppid, defunct_flag = zombie_status\<rparr>,
      parent = None, children = []\<rparr>"

text \<open>
  \<^verbatim>\<open>add_child(parent, child)\<close>: two writes, in the source's order, first the parent's
  array, then the child's back pointer.
\<close>

definition add_child :: "ProcessCollection \<Rightarrow> nat \<Rightarrow> nat \<Rightarrow> ProcessCollection" where
  "add_child c p ch =
     (let ns1 = (nodes c)[p := (nodes c ! p)\<lparr>children := children (nodes c ! p) @ [ch]\<rparr>];
          ns2 = ns1[ch := (ns1 ! ch)\<lparr>parent := Some p\<rparr>]
      in c\<lparr>nodes := ns2\<rparr>)"

definition init_collection :: ProcessCollection where
  "init_collection = \<lparr>nodes = [], root = None\<rparr>"

definition add_to_collection :: "ProcessCollection \<Rightarrow> ProcessNode \<Rightarrow> ProcessCollection" where
  "add_to_collection c node = c\<lparr>nodes := nodes c @ [node]\<rparr>"

fun find_from :: "ProcessNode list \<Rightarrow> int \<Rightarrow> nat \<Rightarrow> nat option" where
  "find_from [] pid i = None"
| "find_from (n # ns) pid i =
     (if id' (data n) = pid then Some i else find_from ns pid (Suc i))"

definition find_node_by_pid :: "ProcessCollection \<Rightarrow> int \<Rightarrow> nat option" where
  "find_node_by_pid c pid = find_from (nodes c) pid 0"

section \<open>Process data\<close>

definition fetch_process_data :: "snapshot \<Rightarrow> int \<Rightarrow> ProcessMetadata option" where
  "fetch_process_data snap pid =
     (case status snap pid of
        None \<Rightarrow> None
      | Some (ppid, z) \<Rightarrow> Some \<lparr>id' = pid, parent_id = ppid, defunct_flag = z\<rparr>)"

section \<open>Tree building\<close>

text \<open>
  \<^verbatim>\<open>discover_children(collection, parent_pid)\<close> is \<open>discover_loop\<close> started on all
  entries: the list argument is what \<^verbatim>\<open>readdir\<close> has not yet returned. The recursive
  call of the source rescans the whole directory for the new node, and the loop then
  goes on in the collection the call has left.
\<close>

text \<open>
  \<open>pids c\<close> are the process ids in the collection. \<open>insert_linked\<close> is the block of
  the loop body that creates the node for a new process, adds it to the collection and
  links it under the node found for \<open>parent_pid\<close>, if there is one.
\<close>

definition pids :: "ProcessCollection \<Rightarrow> int set" where
  "pids c = set (map (\<lambda>n. id' (data n)) (nodes c))"

definition insert_linked :: "ProcessCollection \<Rightarrow> ProcessMetadata \<Rightarrow> int \<Rightarrow> ProcessCollection" where
  "insert_linked c proc_data parent_pid =
     (let node = length (nodes c);
          c1 = add_to_collection c
                 (create_node (id' proc_data) (parent_id proc_data) (defunct_flag proc_data))
      in case find_node_by_pid c1 parent_pid of
           Some p \<Rightarrow> add_child c1 p node
         | None \<Rightarrow> c1)"

function discover_loop ::
  "snapshot \<Rightarrow> ProcessCollection \<Rightarrow> int \<Rightarrow> int list \<Rightarrow> ProcessCollection" where
  "discover_loop snap c parent_pid [] = c"
| "discover_loop snap c parent_pid (pid # rest) =
     (if pid > 0 then
        (case fetch_process_data snap pid of
           Some proc_data \<Rightarrow>
             if parent_id proc_data = parent_pid then
               (if find_node_by_pid c pid \<noteq> None then discover_loop snap c parent_pid rest
                else discover_loop snap
                       (discover_loop snap (insert_linked c proc_data parent_pid) pid
                          (entries snap))
                       parent_pid rest)
             else discover_loop snap c parent_pid rest
         | None \<Rightarrow> discover_loop snap c parent_pid rest)
      else discover_loop snap c parent_pid rest)"
  by pat_completeness auto

definition discover_children :: "snapshot \<Rightarrow> ProcessCollection \<Rightarrow> int \<Rightarrow> ProcessCollection" where
  "discover_children snap c parent_pid = discover_loop snap c parent_pid (entries snap)"

text \<open>
  \<^verbatim>\<open>build_process_hierarchy\<close> has two parts. \<open>link_loop\<close> is its second loop, the
  reconciliation pass over the indices of the collection (\<^verbatim>\<open>add_child\<close> does not change
  its size). \<open>build_without_reconciliation\<close> is the part before it: the root is
  fetched, inserted and made the root, and its children are discovered.
\<close>

fun link_loop :: "ProcessCollection \<Rightarrow> int \<Rightarrow> nat list \<Rightarrow> ProcessCollection" where
  "link_loop c root_pid [] = c"
| "link_loop c root_pid (i # rest) =
     link_loop
       (if id' (data (nodes c ! i)) \<noteq> root_pid then
          (case find_node_by_pid c (parent_id (data (nodes c ! i))) of
             Some p \<Rightarrow> if parent (nodes c ! i) = None then add_child c p i else c
           | None \<Rightarrow> c)
        else c)
       root_pid rest"

definition build_without_reconciliation :: "snapshot \<Rightarrow> ProcessCollection \<Rightarrow> int \<Rightarrow> ProcessCollection" where
  "build_without_reconciliation snap c root_pid =
     (case fetch_process_data snap root_pid of
        Some root_data \<Rightarrow>
          (let root_node = length (nodes c);
               c1 = add_to_collection c
                      (create_node root_pid (parent_id root_data) (defunct_flag root_data));
               c2 = c1\<lparr>root := Some root_node\<rparr>
           in discover_children snap c2 root_pid)
      | None \<Rightarrow> c)"

definition build_process_hierarchy :: "snapshot \<Rightarrow> ProcessCollection \<Rightarrow> int \<Rightarrow> ProcessCollection" where
  "build_process_hierarchy snap c root_pid =
     (let c1 = build_without_reconciliation snap c root_pid
      in link_loop c1 root_pid [0..<length (nodes c1)])"

section \<open>Results, faults and effects\<close>

text \<open>
  \<^verbatim>\<open>init_result\<close> allocates room for 1000 ints and no function checks \<^verbatim>\<open>count\<close> against
  it. \<open>result_ids\<close> holds the cells written so far, so \<^verbatim>\<open>count\<close> is its length, and
  the write \<^verbatim>\<open>result_ids[count++] = v\<close> is \<open>store_id\<close>: past the allocation it has no
  defined behaviour in C, which the model reports as the fault \<open>BufferOverflow\<close>.
  \<^verbatim>\<open>malloc\<close> is taken to succeed. The recursive walks over child and parent pointers
  need not return on an arbitrary store, so an operation yields an \<open>outcome\<close>:
  \<open>None\<close> when it does not return, \<open>Some (Inl f)\<close> for a fault, \<open>Some (Inr x)\<close> for
  its result.
\<close>

datatype fault = BufferOverflow

type_synonym 'a outcome = "(fault + 'a) option"

definition obind :: "'a outcome \<Rightarrow> ('a \<Rightarrow> 'b outcome) \<Rightarrow> 'b outcome" where
  "obind m f =
     (case m of None \<Rightarrow> None | Some (Inl e) \<Rightarrow> Some (Inl e) | Some (Inr a) \<Rightarrow> f a)"

lemma obind_mono [partial_function_mono]:
  assumes "mono_option B" and "\<And>y. mono_option (\<lambda>f. C y f)"
  shows "mono_option (\<lambda>f. obind (B f) (\<lambda>y. C y f))"
proof -
  have eq: "obind m f =
      Option.bind m (\<lambda>x. case x of Inl e \<Rightarrow> Some (Inl e) | Inr a \<Rightarrow> f a)"
    for m :: "'x outcome" and f :: "'x \<Rightarrow> 'y outcome"
    by (auto simp: obind_def split: option.splits sum.splits)
  show ?thesis
    unfolding eq
    apply (intro bind_mono assms)
    subgoal for y by (cases y) (simp_all add: option.const_mono assms)
    done
qed

record CommandResult =
  result_ids :: "int list"
  empty_message :: "string option"

definition RESULT_CAPACITY :: nat where
  "RESULT_CAPACITY = 1000"

definition init_result :: "string option \<Rightarrow> CommandResult" where
  "init_result msg = \<lparr>result_ids = [], empty_message = msg\<rparr>"

definition store_id :: "CommandResult \<Rightarrow> int \<Rightarrow> fault + CommandResult" where
  "store_id r v =
     (if length (result_ids r) < RESULT_CAPACITY
      then Inr (r\<lparr>result_ids := result_ids r @ [v]\<rparr>)
      else Inl BufferOverflow)"

text \<open>A \<^verbatim>\<open>for\<close> loop that writes the ids of a row of nodes, one \<open>store_id\<close> each.\<close>

fun store_all :: "CommandResult \<Rightarrow> int list \<Rightarrow> fault + CommandResult" where
  "store_all r [] = Inr r"
| "store_all r (v # vs) =
     (case store_id r v of Inl f \<Rightarrow> Inl f | Inr r1 \<Rightarrow> store_all r1 vs)"

text \<open>
  The outside world the program acts on: the signals sent with \<^verbatim>\<open>kill\<close> (its return
  value is never read) and the lines printed. A line is kept as its \<^verbatim>\<open>printf\<close> format
  and arguments: \<open>OutInt n\<close> is \<^verbatim>\<open>"%d\n"\<close>, \<open>OutPair a b\<close> is \<^verbatim>\<open>"%d %d\n"\<close>, \<open>OutText s\<close>
  is \<^verbatim>\<open>"%s\n"\<close>, \<open>OutNotInTree t r\<close> is "The process t does not belong to the tree
  rooted at r", \<open>OutInvalid s\<close> is "Invalid option: s" and \<open>OutUsage s\<close> the usage line.
\<close>

datatype signal = SIGKILL | SIGSTOP | SIGCONT

datatype out =
    OutInt int
  | OutPair int int
  | OutText string
  | OutNotInTree int int
  | OutInvalid string
  | OutUsage string

record world =
  signals :: "(int \<times> signal) list"
  stdout :: "out list"

definition kill :: "world \<Rightarrow> int \<Rightarrow> signal \<Rightarrow> world" where
  "kill w pid sig = w\<lparr>signals := signals w @ [(pid, sig)]\<rparr>"

definition printf :: "world \<Rightarrow> out \<Rightarrow> world" where
  "printf w line = w\<lparr>stdout := stdout w @ [line]\<rparr>"

section \<open>Query functions\<close>

definition count_zombies :: "ProcessCollection \<Rightarrow> nat" where
  "count_zombies c = length (filter (\<lambda>n. defunct_flag (data n)) (nodes c))"

definition get_direct_descendants :: "ProcessCollection \<Rightarrow> int \<Rightarrow> CommandResult outcome" where
  "get_direct_descendants c pid =
     (let result = init_result (Some ''No direct descendants'')
      in case find_node_by_pid c pid of
           Some node \<Rightarrow>
             Some (store_all result
               (map (\<lambda>child. id' (data (nodes c ! child))) (children (nodes c ! node))))
         | None \<Rightarrow> Some (Inr result))"

definition get_grandchildren :: "ProcessCollection \<Rightarrow> int \<Rightarrow> CommandResult outcome" where
  "get_grandchildren c pid =
     (let result = init_result (Some ''No grandchildren'')
      in case find_node_by_pid c pid of
           Some node \<Rightarrow>
             Some (store_all result
               (concat (map (\<lambda>child. map (\<lambda>g. id' (data (nodes c ! g)))
                                        (children (nodes c ! child)))
                          (children (nodes c ! node)))))
         | None \<Rightarrow> Some (Inr result))"

text \<open>
  \<^verbatim>\<open>collect_indirect_descendants(node, result, count)\<close> is \<open>collect_indirect_loop\<close>
  started with no inner row and the children of \<open>node\<close> as the outer row. \<open>outer\<close> is
  what is left of the loop over \<^verbatim>\<open>i\<close>, \<open>inner\<close> what is left of the loop over \<^verbatim>\<open>j\<close> for
  the current child: each \<open>g\<close> of the inner row is written and then visited by the
  recursive call.
\<close>

partial_function (option) collect_indirect_loop ::
  "ProcessCollection \<Rightarrow> nat list \<Rightarrow> nat list \<Rightarrow> CommandResult \<Rightarrow> CommandResult outcome" where
  "collect_indirect_loop c inner outer r =
     (case inner of
        g # inner' \<Rightarrow>
          obind (Some (store_id r (id' (data (nodes c ! g)))))
            (\<lambda>r1. obind (collect_indirect_loop c [] (children (nodes c ! g)) r1)
               (\<lambda>r2. collect_indirect_loop c inner' outer r2))
      | [] \<Rightarrow>
          (case outer of
             [] \<Rightarrow> Some (Inr r)
           | child # outer' \<Rightarrow>
               collect_indirect_loop c (children (nodes c ! child)) outer' r))"

definition collect_indirect_descendants ::
  "ProcessCollection \<Rightarrow> nat \<Rightarrow> CommandResult \<Rightarrow> CommandResult outcome" where
  "collect_indirect_descendants c node r =
     collect_indirect_loop c [] (children (nodes c ! node)) r"

definition get_indirect_descendants :: "ProcessCollection \<Rightarrow> int \<Rightarrow> CommandResult outcome" where
  "get_indirect_descendants c pid =
     (let result = init_result (Some ''No non-direct descendants'')
      in case find_node_by_pid c pid of
           Some node \<Rightarrow> collect_indirect_descendants c node result
         | None \<Rightarrow> Some (Inr result))"

definition get_siblings :: "ProcessCollection \<Rightarrow> int \<Rightarrow> CommandResult outcome" where
  "get_siblings c pid =
     (let result = init_result (Some ''No sibling/s'')
      in case find_node_by_pid c pid of
           Some node \<Rightarrow>
             (case parent (nodes c ! node) of
                Some p \<Rightarrow>
                  Some (store_all result
                    (map (\<lambda>sibling. id' (data (nodes c ! sibling)))
                       (filter (\<lambda>sibling. id' (data (nodes c ! sibling)) \<noteq> pid)
                          (children (nodes c ! p)))))
              | None \<Rightarrow> Some (Inr result))
         | None \<Rightarrow> Some (Inr result))"

definition get_defunct_siblings :: "ProcessCollection \<Rightarrow> int \<Rightarrow> CommandResult outcome" where
  "get_defunct_siblings c pid =
     (let result = init_result (Some ''No defunct sibling/s'')
      in case find_node_by_pid c pid of
           Some node \<Rightarrow>
             (case parent (nodes c ! node) of
                Some p \<Rightarrow>
                  Some (store_all result
                    (map (\<lambda>sibling. id' (data (nodes c ! sibling)))
                       (filter (\<lambda>sibling. id' (data (nodes c ! sibling)) \<noteq> pid
                                          \<and> defunct_flag (data (nodes c ! sibling)))
                          (children (nodes c ! p)))))
              | None \<Rightarrow> Some (Inr result))
         | None \<Rightarrow> Some (Inr result))"

text \<open>
  \<^verbatim>\<open>collect_defunct_descendants(node, result, count)\<close> is \<open>collect_defunct_loop\<close> on the
  children of \<open>node\<close>: the list is what is left of the loop over \<^verbatim>\<open>i\<close>.
\<close>

partial_function (option) collect_defunct_loop ::
  "ProcessCollection \<Rightarrow> nat list \<Rightarrow> CommandResult \<Rightarrow> CommandResult outcome" where
  "collect_defunct_loop c chs r =
     (case chs of
        [] \<Rightarrow> Some (Inr r)
      | child # rest \<Rightarrow>
          obind (Some (if defunct_flag (data (nodes c ! child))
                       then store_id r (id' (data (nodes c ! child))) else Inr r))
            (\<lambda>r1. obind (collect_defunct_loop c (children (nodes c ! child)) r1)
               (\<lambda>r2. collect_defunct_loop c rest r2)))"

definition collect_defunct_descendants ::
  "ProcessCollection \<Rightarrow> nat \<Rightarrow> CommandResult \<Rightarrow> CommandResult outcome" where
  "collect_defunct_descendants c node r =
     collect_defunct_loop c (children (nodes c ! node)) r"

definition get_defunct_descendants :: "ProcessCollection \<Rightarrow> int \<Rightarrow> CommandResult outcome" where
  "get_defunct_descendants c pid =
     (let result = init_result (Some ''No descendant zombie process/es'')
      in case find_node_by_pid c pid of
           Some node \<Rightarrow> collect_defunct_descendants c node result
         | None \<Rightarrow> Some (Inr result))"

section \<open>Action functions\<close>

text \<open>
  The \<^verbatim>\<open>while (parent)\<close> loop of \<^verbatim>\<open>signal_all_descendants\<close> for the node \<open>current\<close>:
  \<open>par\<close> is the pointer the loop holds. On a match it signals, writes and leaves.
\<close>

partial_function (option) ancestor_walk ::
  "ProcessCollection \<Rightarrow> int \<Rightarrow> signal \<Rightarrow> nat \<Rightarrow> nat option \<Rightarrow> CommandResult \<times> world
     \<Rightarrow> (CommandResult \<times> world) outcome" where
  "ancestor_walk c pid signal_type current par rw =
     (case par of
        None \<Rightarrow> Some (Inr rw)
      | Some p \<Rightarrow>
          if id' (data (nodes c ! p)) = pid then
            (let w1 = kill (snd rw) (id' (data (nodes c ! current))) signal_type
             in case store_id (fst rw) (id' (data (nodes c ! current))) of
                  Inl f \<Rightarrow> Some (Inl f)
                | Inr r1 \<Rightarrow> Some (Inr (r1, w1)))
          else ancestor_walk c pid signal_type current (parent (nodes c ! p)) rw)"

fun signal_loop ::
  "ProcessCollection \<Rightarrow> int \<Rightarrow> signal \<Rightarrow> nat list \<Rightarrow> CommandResult \<times> world
     \<Rightarrow> (CommandResult \<times> world) outcome" where
  "signal_loop c pid signal_type [] rw = Some (Inr rw)"
| "signal_loop c pid signal_type (i # rest) rw =
     obind (ancestor_walk c pid signal_type i (parent (nodes c ! i)) rw)
       (signal_loop c pid signal_type rest)"

definition signal_all_descendants ::
  "ProcessCollection \<Rightarrow> int \<Rightarrow> signal \<Rightarrow> world \<Rightarrow> (CommandResult \<times> world) outcome" where
  "signal_all_descendants c pid signal_type w =
     (let result = init_result None
      in case find_node_by_pid c pid of
           Some node \<Rightarrow> signal_loop c pid signal_type [0..<length (nodes c)] (result, w)
         | None \<Rightarrow> Some (Inr (result, w)))"

fun kill_parents_loop ::
  "ProcessCollection \<Rightarrow> int list \<Rightarrow> CommandResult \<times> world
     \<Rightarrow> (CommandResult \<times> world) outcome" where
  "kill_parents_loop c [] rw = Some (Inr rw)"
| "kill_parents_loop c (z # rest) rw =
     (case find_node_by_pid c z of
        Some zombie \<Rightarrow>
          if parent_id (data (nodes c ! zombie)) > 1 then
            (let w1 = kill (snd rw) (parent_id (data (nodes c ! zombie))) SIGKILL
             in case store_id (fst rw) (parent_id (data (nodes c ! zombie))) of
                  Inl f \<Rightarrow> Some (Inl f)
                | Inr r1 \<Rightarrow> kill_parents_loop c rest (r1, w1))
          else kill_parents_loop c rest rw
      | None \<Rightarrow> kill_parents_loop c rest rw)"

definition kill_zombie_parents ::
  "ProcessCollection \<Rightarrow> int \<Rightarrow> world \<Rightarrow> (CommandResult \<times> world) outcome" where
  "kill_zombie_parents c pid w =
     (let result = init_result None
      in obind (get_defunct_descendants c pid)
           (\<lambda>zombies. kill_parents_loop c (result_ids zombies) (result, w)))"

section \<open>Command handlers\<close>

type_synonym CommandFunction =
  "ProcessCollection \<Rightarrow> int \<Rightarrow> world \<Rightarrow> (CommandResult \<times> world) outcome"

definition query :: "CommandResult outcome \<Rightarrow> world \<Rightarrow> (CommandResult \<times> world) outcome" where
  "query m w = obind m (\<lambda>r. Some (Inr (r, w)))"

definition handle_count_defunct :: CommandFunction where
  "handle_count_defunct c pid w =
     Some (Inr (init_result None, printf w (OutInt (int (count_zombies c)))))"

definition handle_non_direct_descendants :: CommandFunction where
  "handle_non_direct_descendants c pid w = query (get_indirect_descendants c pid) w"

definition handle_immediate_descendants :: CommandFunction where
  "handle_immediate_descendants c pid w = query (get_direct_descendants c pid) w"

definition handle_siblings :: CommandFunction where
  "handle_siblings c pid w = query (get_siblings c pid) w"

definition handle_defunct_siblings :: CommandFunction where
  "handle_defunct_siblings c pid w = query (get_defunct_siblings c pid) w"

definition handle_defunct_descendants :: CommandFunction where
  "handle_defunct_descendants c pid w = query (get_defunct_descendants c pid) w"

definition handle_grandchildren :: CommandFunction where
  "handle_grandchildren c pid w = query (get_grandchildren c pid) w"

definition handle_process_status :: CommandFunction where
  "handle_process_status c pid w =
     (let result = init_result None
      in case find_node_by_pid c pid of
           Some node \<Rightarrow>
             Some (Inr (result,
               printf w (OutText (if defunct_flag (data (nodes c ! node))
                                  then ''Defunct'' else ''Not defunct''))))
         | None \<Rightarrow> Some (Inr (result, w)))"

definition handle_kill_zombie_parents :: CommandFunction where
  "handle_kill_zombie_parents c pid w = kill_zombie_parents c pid w"

definition handle_kill_descendants :: CommandFunction where
  "handle_kill_descendants c pid w = signal_all_descendants c pid SIGKILL w"

definition handle_stop_descendants :: CommandFunction where
  "handle_stop_descendants c pid w = signal_all_descendants c pid SIGSTOP w"

definition handle_continue_descendants :: CommandFunction where
  "handle_continue_descendants c pid w = signal_all_descendants c pid SIGCONT w"

definition handle_kill_root :: CommandFunction where
  "handle_kill_root c pid w =
     (let result = init_result None
      in case root c of
           Some r \<Rightarrow> Some (Inr (result, kill w (id' (data (nodes c ! r))) SIGKILL))
         | None \<Rightarrow> Some (Inr (result, w)))"

section \<open>Command registry, output and main\<close>

definition command_registry :: "(string \<times> CommandFunction) list" where
  "command_registry =
     [(''-dc'', handle_count_defunct),
      (''-ds'', handle_non_direct_descendants),
      (''-id'', handle_immediate_descendants),
      (''-lg'', handle_siblings),
      (''-lz'', handle_defunct_siblings),
      (''-df'', handle_defunct_descendants),
      (''-gc'', handle_grandchildren),
      (''-do'', handle_process_status),
      (''--pz'', handle_kill_zombie_parents),
      (''-sk'', handle_kill_descendants),
      (''-st'', handle_stop_descendants),
      (''-dt'', handle_continue_descendants),
      (''-rp'', handle_kill_root)]"

fun find_in_registry :: "(string \<times> CommandFunction) list \<Rightarrow> string \<Rightarrow> CommandFunction option" where
  "find_in_registry [] option = None"
| "find_in_registry ((flag, handler) # rest) option =
     (if flag = option then Some handler else find_in_registry rest option)"

definition find_command_handler :: "string \<Rightarrow> CommandFunction option" where
  "find_command_handler option = find_in_registry command_registry option"

definition display_results :: "CommandResult \<Rightarrow> world \<Rightarrow> world" where
  "display_results result w =
     (case empty_message result of
        Some msg \<Rightarrow>
          if result_ids result = [] then printf w (OutText msg)
          else foldl printf w (map OutInt (result_ids result))
      | None \<Rightarrow> foldl printf w (map OutInt (result_ids result)))"

text \<open>
  \<^verbatim>\<open>atoi\<close> is a library function: it reads white space, an optional sign, then decimal
  digits up to the first other character, as \<^verbatim>\<open>strtol\<close> does in base 10, and its result
  is stored in an \<^verbatim>\<open>int\<close>. The value is modelled as on Linux with glibc, where \<^verbatim>\<open>atoi\<close>
  is \<^verbatim>\<open>(int) strtol(s, NULL, 10)\<close>: \<^verbatim>\<open>strtol\<close> yields a 64-bit \<^verbatim>\<open>long\<close>, \<^verbatim>\<open>LONG_MAX\<close> or
  \<^verbatim>\<open>LONG_MIN\<close> when the digits run past it, and the conversion to the 32-bit \<^verbatim>\<open>int\<close>
  keeps the low 32 bits in two's complement. So \<^verbatim>\<open>atoi("4294967297")\<close> is 1.
\<close>

definition is_space :: "char \<Rightarrow> bool" where
  "is_space ch = (of_char ch = (32::nat) \<or> (9 \<le> (of_char ch :: nat) \<and> (of_char ch :: nat) \<le> 13))"

fun atoi_digits :: "int \<Rightarrow> string \<Rightarrow> int" where
  "atoi_digits acc [] = acc"
| "atoi_digits acc (ch # rest) =
     (if 48 \<le> (of_char ch :: nat) \<and> (of_char ch :: nat) \<le> 57
      then atoi_digits (10 * acc + (int (of_char ch) - 48)) rest
      else acc)"

definition LONG_MAX :: int where
  "LONG_MAX = 9223372036854775807"

definition LONG_MIN :: int where
  "LONG_MIN = - 9223372036854775808"

definition strtol :: "string \<Rightarrow> int" where
  "strtol s =
     (let v = (case dropWhile is_space s of
                 [] \<Rightarrow> 0
               | ch # rest \<Rightarrow>
                   if ch = CHR ''-'' then - atoi_digits 0 rest
                   else if ch = CHR ''+'' then atoi_digits 0 rest
                   else atoi_digits 0 (ch # rest))
      in if v > LONG_MAX then LONG_MAX else if v < LONG_MIN then LONG_MIN else v)"

definition int_of_long :: "int \<Rightarrow> int" where
  "int_of_long v = (v + 2147483648) mod 4294967296 - 2147483648"

definition atoi :: "string \<Rightarrow> int" where
  "atoi s = int_of_long (strtol s)"

text \<open>
  \<^verbatim>\<open>main\<close>: \<open>prog\<close> is \<^verbatim>\<open>argv[0]\<close> and \<open>args\<close> the arguments after it, so \<^verbatim>\<open>argc\<close> is
  \<open>1 + length args\<close>. The result is the exit status and the world after the run.
\<close>

definition main :: "snapshot \<Rightarrow> string \<Rightarrow> string list \<Rightarrow> world \<Rightarrow> (int \<times> world) outcome" where
  "main snap prog args w =
     (if 1 + length args < 3 then Some (Inr (1, printf w (OutUsage prog)))
      else
        (let root_pid = atoi (args ! 0);
             target_pid = atoi (args ! 1);
             processes = build_process_hierarchy snap init_collection root_pid
         in obind
              (if 1 + length args = 3 then
                 (case find_node_by_pid processes target_pid of
                    Some node \<Rightarrow>
                      Some (Inr (printf w (OutPair (id' (data (nodes processes ! node)))
                                              (parent_id (data (nodes processes ! node))))))
                  | None \<Rightarrow>
                      Some (Inr (printf w (OutText ''Does not belong to the process tree''))))
               else
                 (let option = args ! 2;
                      handler = find_command_handler option
                  in if option = ''-rp'' then
                       obind (handle_kill_root processes root_pid w)
                         (\<lambda>(result, w1). Some (Inr (display_results result w1)))
                     else
                       (case handler of
                          Some h \<Rightarrow>
                            if find_node_by_pid processes target_pid \<noteq> None then
                              obind (h processes target_pid w)
                                (\<lambda>(result, w1). Some (Inr (display_results result w1)))
                            else Some (Inr (printf w (OutNotInTree target_pid root_pid)))
                        | None \<Rightarrow> Some (Inr (printf w (OutInvalid option))))))
              (\<lambda>w2. Some (Inr (0, w2)))))"

section \<open>Vocabulary of the properties\<close>

text \<open>
  \<open>follow_parent c k i\<close> is the node reached from node \<open>i\<close> after \<open>k\<close> parent links,
  \<open>None\<close> when the chain ends before.
\<close>

fun follow_parent :: "ProcessCollection \<Rightarrow> nat \<Rightarrow> nat \<Rightarrow> nat option" where
  "follow_parent c 0 i = Some i"
| "follow_parent c (Suc k) i =
     (case parent (nodes c ! i) of None \<Rightarrow> None | Some p \<Rightarrow> follow_parent c k p)"

text \<open>
  With the preorder numbering, the nodes below node \<open>i\<close> are the indices after \<open>i\<close> up
  to \<open>subtree_end c i\<close>: the first index whose parent lies before \<open>i\<close>, or the number
  of nodes. \<open>zombie_ids c a b\<close> are the ids of the defunct nodes with an index from \<open>a\<close>
  up to \<open>b\<close>, in index order.
\<close>

definition below :: "ProcessCollection \<Rightarrow> nat \<Rightarrow> nat \<Rightarrow> bool" where
  "below c i j = (case parent (nodes c ! j) of None \<Rightarrow> False | Some q \<Rightarrow> i \<le> q)"

definition subtree_end :: "ProcessCollection \<Rightarrow> nat \<Rightarrow> nat" where
  "subtree_end c i = Suc i + length (takeWhile (below c i) [Suc i..<length (nodes c)])"

definition zombie_ids :: "ProcessCollection \<Rightarrow> nat \<Rightarrow> nat \<Rightarrow> int list" where
  "zombie_ids c a b =
     map (\<lambda>j. id' (data (nodes c ! j)))
       (filter (\<lambda>j. defunct_flag (data (nodes c ! j))) [a..<b])"

text \<open>
  \<open>chain c k par\<close> is the parent chain that starts with the pointer \<open>par\<close>, cut after
  \<open>k\<close> nodes. A node is a proper descendant of the process \<open>pid\<close> when its parent
  chain, walked upward, meets a node with that id; no chain of a tree is longer than
  the number of its nodes.
\<close>

fun chain :: "ProcessCollection \<Rightarrow> nat \<Rightarrow> nat option \<Rightarrow> nat list" where
  "chain c 0 par = []"
| "chain c (Suc k) None = []"
| "chain c (Suc k) (Some p) = p # chain c k (parent (nodes c ! p))"

definition proper_descendant :: "ProcessCollection \<Rightarrow> int \<Rightarrow> nat \<Rightarrow> bool" where
  "proper_descendant c pid j \<longleftrightarrow>
     pid \<in> set (map (\<lambda>a. id' (data (nodes c ! a)))
                 (chain c (length (nodes c)) (parent (nodes c ! j))))"

text \<open>
  \<open>metadata_of c pid\<close> is the record of the process \<open>pid\<close> in the tree, if it is there.
  \<open>signalled_parent c z\<close> is what one round of the loop of \<^verbatim>\<open>kill_zombie_parents\<close>
  contributes for the zombie id \<open>z\<close>: its parent id when that is greater than 1.
\<close>

definition metadata_of :: "ProcessCollection \<Rightarrow> int \<Rightarrow> ProcessMetadata option" where
  "metadata_of c pid = map_option (\<lambda>n. data (nodes c ! n)) (find_node_by_pid c pid)"

definition signalled_parent :: "ProcessCollection \<Rightarrow> int \<Rightarrow> int list" where
  "signalled_parent c z =
     (case find_node_by_pid c z of
        Some n \<Rightarrow> if 1 < parent_id (data (nodes c ! n)) then [parent_id (data (nodes c ! n))] else []
      | None \<Rightarrow> [])"

text \<open>
  \<open>indirect_row c k node\<close> is the row of ids that \<^verbatim>\<open>collect_indirect_descendants\<close> writes
  for \<open>node\<close> when no chain of child pointers is longer than \<open>2 * k\<close>: for each child, in order,
  each grandchild \<open>g\<close>, followed by the row of \<open>g\<close>. \<open>collected msg row\<close> is what collecting
  the ids of \<open>row\<close> into a fresh result comes to according to the capacity of 1000 cells:
  the row when it has at most 1000 ids, a write past the allocation otherwise.
\<close>

fun indirect_row :: "ProcessCollection \<Rightarrow> nat \<Rightarrow> nat \<Rightarrow> int list" where
  "indirect_row c 0 node = []"
| "indirect_row c (Suc k) node =
     concat (map (\<lambda>child. concat (map (\<lambda>g. id' (data (nodes c ! g)) # indirect_row c k g)
                                       (children (nodes c ! child))))
               (children (nodes c ! node)))"

definition collected :: "string option \<Rightarrow> int list \<Rightarrow> CommandResult outcome" where
  "collected msg row =
     (if length row \<le> 1000 then Some (Inr \<lparr>result_ids = row, empty_message = msg\<rparr>)
      else Some (Inl BufferOverflow))"

text \<open>
  Snapshots used as concrete inputs. \<open>example_snapshot\<close> is the scenario of the
  specification: root 1, its children 2 (defunct) and 3, and 4 (defunct) below 2.
  In \<open>cyclic_snapshot\<close> the processes 7 and 8 name each other as parent and 9 names
  itself. \<open>no_process\<close> is an empty process table. In \<open>shared_parent_snapshot\<close> the
  zombies 6 and 7 share the parent 5, and the zombie 8 is a child of process 1.
  \<open>chain_snapshot\<close> is a line of five processes, each the parent of the next.
  \<open>star_snapshot n\<close> is process 1 with the \<open>n\<close> defunct children 2 to \<open>n + 1\<close>.
\<close>

definition example_snapshot :: snapshot where
  "example_snapshot =
     \<lparr>entries = [1, 2, 3, 4],
      status = [1 \<mapsto> (0, False), 2 \<mapsto> (1, True), 3 \<mapsto> (1, False), 4 \<mapsto> (2, True)]\<rparr>"

definition cyclic_snapshot :: snapshot where
  "cyclic_snapshot =
     \<lparr>entries = [7, 8, 9, 10],
      status = [7 \<mapsto> (8, False), 8 \<mapsto> (7, False), 9 \<mapsto> (9, False), 10 \<mapsto> (8, True)]\<rparr>"

definition shared_parent_snapshot :: snapshot where
  "shared_parent_snapshot =
     \<lparr>entries = [1, 5, 6, 7, 8],
      status = [1 \<mapsto> (0, False), 5 \<mapsto> (1, False), 6 \<mapsto> (5, True), 7 \<mapsto> (5, True),
                8 \<mapsto> (1, True)]\<rparr>"

definition chain_snapshot :: snapshot where
  "chain_snapshot =
     \<lparr>entries = [1, 2, 3, 4, 5],
      status = [1 \<mapsto> (0, False), 2 \<mapsto> (1, False), 3 \<mapsto> (2, False), 4 \<mapsto> (3, False),
                5 \<mapsto> (4, False)]\<rparr>"

definition star_snapshot :: "nat \<Rightarrow> snapshot" where
  "star_snapshot n =
     \<lparr>entries = map int [1..<n + 2],
      status = (\<lambda>pid. if pid = 1 then Some (0, False)
                     else if 2 \<le> pid \<and> pid \<le> int n + 1 then Some (1, True)
                     else None)\<rparr>"

definition no_process :: snapshot where
  "no_process = \<lparr>entries = [], status = (\<lambda>pid. None)\<rparr>"

section \<open>Invariants of the builder\<close>

text \<open>
  What the builder keeps true of the collection. Node 0 is the root and the only node
  without a parent; a parent sits at a smaller index than its child and carries the id
  the child names as its parent; the children of a node are exactly the nodes that
  point back at it, in index order; and the indices are a preorder numbering: between a
  node and any of its children there are only descendants of that node.
  \<open>active c p\<close> says that every node after \<open>p\<close> hangs below \<open>p\<close>, which holds for
  the node whose children are being discovered. \<open>data_ok snap c\<close> says that every
  node carries what the snapshot reports for its id. \<open>ext c c'\<close> says that \<open>c'\<close> has the
  nodes of \<open>c\<close> with their data and parent links, and maybe more.
\<close>

definition ids_distinct :: "ProcessCollection \<Rightarrow> bool" where
  "ids_distinct c = distinct (map (\<lambda>n. id' (data n)) (nodes c))"

definition root_ok :: "ProcessCollection \<Rightarrow> bool" where
  "root_ok c \<longleftrightarrow> root c = (if nodes c = [] then None else Some 0)"

definition parents_ok :: "ProcessCollection \<Rightarrow> bool" where
  "parents_ok c \<longleftrightarrow>
     (\<forall>j<length (nodes c).
        case parent (nodes c ! j) of
          None \<Rightarrow> j = 0
        | Some p \<Rightarrow> p < j \<and> id' (data (nodes c ! p)) = parent_id (data (nodes c ! j)))"

definition children_ok :: "ProcessCollection \<Rightarrow> bool" where
  "children_ok c \<longleftrightarrow>
     (\<forall>i<length (nodes c).
        children (nodes c ! i) =
          filter (\<lambda>j. parent (nodes c ! j) = Some i) [0..<length (nodes c)])"

definition active :: "ProcessCollection \<Rightarrow> nat \<Rightarrow> bool" where
  "active c p \<longleftrightarrow>
     (\<forall>j. p < j \<and> j < length (nodes c) \<longrightarrow> (\<exists>q. parent (nodes c ! j) = Some q \<and> p \<le> q))"

definition preorder_ok :: "ProcessCollection \<Rightarrow> bool" where
  "preorder_ok c \<longleftrightarrow>
     (\<forall>k<length (nodes c). \<forall>p. parent (nodes c ! k) = Some p \<longrightarrow>
        (\<forall>j. p < j \<and> j < k \<longrightarrow> (\<exists>q. parent (nodes c ! j) = Some q \<and> p \<le> q)))"

definition tree_ok :: "ProcessCollection \<Rightarrow> bool" where
  "tree_ok c \<longleftrightarrow> ids_distinct c \<and> root_ok c \<and> parents_ok c \<and> children_ok c \<and> preorder_ok c"

definition data_ok :: "snapshot \<Rightarrow> ProcessCollection \<Rightarrow> bool" where
  "data_ok snap c \<longleftrightarrow>
     (\<forall>d\<in>set (map data (nodes c)). fetch_process_data snap (id' d) = Some d)"

definition ext :: "ProcessCollection \<Rightarrow> ProcessCollection \<Rightarrow> bool" where
  "ext c c' \<longleftrightarrow>
     length (nodes c) \<le> length (nodes c') \<and> root c' = root c \<and>
     (\<forall>i<length (nodes c). data (nodes c' ! i) = data (nodes c ! i)
                          \<and> parent (nodes c' ! i) = parent (nodes c ! i))"

section \<open>Termination of the discovery\<close>

text \<open>
  Termination of the discovery: every recursive rescan has put one more process id of
  the snapshot into the collection, and the collection never loses an id.
\<close>

lemma find_from_None:
  "find_from ns pid i = None \<longleftrightarrow> pid \<notin> set (map (\<lambda>n. id' (data n)) ns)"
  by (induction ns arbitrary: i) auto

lemma find_node_by_pid_None: "find_node_by_pid c pid = None \<longleftrightarrow> pid \<notin> pids c"
  by (simp add: find_node_by_pid_def pids_def find_from_None del: set_map)

lemma map_update_same: "f y = f (xs ! i) \<Longrightarrow> map f (xs[i := y]) = map f xs"
  by (induction xs arbitrary: i) (auto split: nat.splits)

lemma map_data_add_child: "map data (nodes (add_child c p ch)) = map data (nodes c)"
  unfolding add_child_def Let_def
  by (simp add: map_update_same)

lemma pids_alt: "pids c = set (map id' (map data (nodes c)))"
  by (simp add: pids_def comp_def)

lemma pids_add_child: "pids (add_child c p ch) = pids c"
  by (simp only: pids_alt map_data_add_child)

lemma pids_insert_linked: "pids (insert_linked c pd pp) = insert (id' pd) (pids c)"
  unfolding insert_linked_def Let_def
  by (auto simp: pids_add_child split: option.splits)
     (auto simp: pids_def add_to_collection_def create_node_def)

lemma fetch_id: "fetch_process_data snap pid = Some pd \<Longrightarrow> id' pd = pid"
  by (auto simp: fetch_process_data_def split: option.splits)

lemma discover_loop_pids_mono:
  "discover_loop_dom (snap, c, pp, es) \<Longrightarrow> pids c \<subseteq> pids (discover_loop snap c pp es)"
proof (induction snap c pp es rule: discover_loop.pinduct)
  case (1 snap c parent_pid)
  then show ?case by (simp add: discover_loop.psimps)
next
  case (2 snap c parent_pid pid rest)
  show ?case
    apply (subst discover_loop.psimps(2)[OF 2(1)])
    using 2(2-)
    by (simp add: pids_insert_linked split: option.splits) blast
qed

termination discover_loop
proof (relation "(\<lambda>(snap, c, pp, es). card ((set (entries snap) \<union> set es) - pids c))
                   <*mlex*> measure (\<lambda>(snap, c, pp, es). length es)", goal_cases)
  case 1
  show ?case by (simp add: wf_mlex)
next
  case (2 snap c parent_pid pid rest)
  then show ?case
    by (auto intro!: mlex_leq card_mono)
next
  case (3 snap c parent_pid pid rest x2)
  then show ?case
    by (auto intro!: mlex_leq card_mono)
next
  case (4 snap c parent_pid pid rest x2)
  have "(set (entries snap) \<union> set (entries snap)) - pids (insert_linked c x2 parent_pid)
        \<subset> (set (entries snap) \<union> set (pid # rest)) - pids c"
    using 4 by (auto simp: pids_insert_linked fetch_id find_node_by_pid_None)
  then show ?case
    by (auto intro!: mlex_less psubset_card_mono)
next
  case (5 snap c parent_pid pid rest x2)
  have "pids c \<subseteq> pids (discover_loop snap (insert_linked c x2 parent_pid) pid (entries snap))"
    using discover_loop_pids_mono[OF 5(5)] by (auto simp: pids_insert_linked)
  then show ?case
    by (auto intro!: mlex_leq card_mono)
next
  case (6 snap c parent_pid pid rest x2)
  then show ?case by (auto intro!: mlex_leq card_mono)
next
  case (7 snap c parent_pid pid rest)
  then show ?case by (auto intro!: mlex_leq card_mono)
qed

section \<open>The shape of a built tree\<close>

lemma find_from_Some_iff:
  "find_from ns pid i = Some k \<longleftrightarrow>
     (\<exists>j. k = i + j \<and> j < length ns \<and> id' (data (ns ! j)) = pid
          \<and> (\<forall>m<j. id' (data (ns ! m)) \<noteq> pid))"
proof (induction ns arbitrary: i)
  case Nil
  then show ?case by simp
next
  case (Cons n ns)
  show ?case
  proof (cases "id' (data n) = pid")
    case True
    have "j = 0" if "\<forall>m<j. id' (data ((n # ns) ! m)) \<noteq> pid" for j
      using that True by (cases j) auto
    with True show ?thesis by auto
  next
    case False
    have "(\<exists>j. k = Suc i + j \<and> j < length ns \<and> id' (data (ns ! j)) = pid \<and> (\<forall>m<j. id' (data (ns ! m)) \<noteq> pid))
       \<longleftrightarrow> (\<exists>j. k = i + j \<and> j < length (n # ns) \<and> id' (data ((n # ns) ! j)) = pid \<and> (\<forall>m<j. id' (data ((n # ns) ! m)) \<noteq> pid))"
      (is "?L \<longleftrightarrow> ?R")
    proof
      assume ?L
      then obtain j where j: "k = Suc i + j" "j < length ns" "id' (data (ns ! j)) = pid"
        "\<forall>m<j. id' (data (ns ! m)) \<noteq> pid" by blast
      have "\<forall>m<Suc j. id' (data ((n # ns) ! m)) \<noteq> pid"
        using j(4) False by (auto simp: nth_Cons split: nat.splits)
      with j show ?R by (intro exI[of _ "Suc j"]) auto
    next
      assume ?R
      then obtain j where j: "k = i + j" "j < length (n # ns)" "id' (data ((n # ns) ! j)) = pid"
        "\<forall>m<j. id' (data ((n # ns) ! m)) \<noteq> pid" by blast
      from j(3) False obtain j' where j': "j = Suc j'" by (cases j) auto
      have "\<forall>m<j'. id' (data (ns ! m)) \<noteq> pid"
        using j(4) j' by (metis Suc_mono nth_Cons_Suc)
      with j j' show ?L by (intro exI[of _ j']) auto
    qed
    with False Cons.IH[of "Suc i"] show ?thesis by simp
  qed
qed

lemma find_node_by_pid_Some_iff:
  "find_node_by_pid c pid = Some p \<longleftrightarrow>
     p < length (nodes c) \<and> id' (data (nodes c ! p)) = pid
       \<and> (\<forall>m<p. id' (data (nodes c ! m)) \<noteq> pid)"
  by (auto simp: find_node_by_pid_def find_from_Some_iff)

lemma find_node_by_pid_distinct:
  assumes "ids_distinct c" "i < length (nodes c)"
  shows "find_node_by_pid c (id' (data (nodes c ! i))) = Some i"
proof -
  have "id' (data (nodes c ! m)) \<noteq> id' (data (nodes c ! i))" if "m < i" for m
    using assms that unfolding ids_distinct_def
    by (auto simp: distinct_conv_nth)
  then show ?thesis using assms by (simp add: find_node_by_pid_Some_iff)
qed

lemma ext_refl: "ext c c"
  by (simp add: ext_def)

lemma ext_trans: "ext a b \<Longrightarrow> ext b c \<Longrightarrow> ext a c"
  by (auto simp: ext_def)

lemma find_ext:
  assumes "find_node_by_pid c pid = Some p" "ext c c'"
  shows "find_node_by_pid c' pid = Some p"
  using assms by (auto simp: find_node_by_pid_Some_iff ext_def)

lemma find_add_to_collection:
  "find_node_by_pid c pid = Some p \<Longrightarrow> find_node_by_pid (add_to_collection c node) pid = Some p"
  by (auto simp: find_node_by_pid_Some_iff add_to_collection_def nth_append)

lemma insert_linked_nodes:
  assumes "find_node_by_pid c pp = Some p"
  shows "nodes (insert_linked c pd pp) =
           (nodes c)[p := (nodes c ! p)\<lparr>children := children (nodes c ! p) @ [length (nodes c)]\<rparr>]
           @ [\<lparr>data = \<lparr>id' = id' pd, parent_id = parent_id pd, defunct_flag = defunct_flag pd\<rparr>,
               parent = Some p, children = []\<rparr>]"
    and "root (insert_linked c pd pp) = root c"
proof -
  have p: "p < length (nodes c)" using assms by (simp add: find_node_by_pid_Some_iff)
  show "nodes (insert_linked c pd pp) =
           (nodes c)[p := (nodes c ! p)\<lparr>children := children (nodes c ! p) @ [length (nodes c)]\<rparr>]
           @ [\<lparr>data = \<lparr>id' = id' pd, parent_id = parent_id pd, defunct_flag = defunct_flag pd\<rparr>,
               parent = Some p, children = []\<rparr>]"
    using p find_add_to_collection[OF assms]
    by (simp add: insert_linked_def Let_def add_child_def add_to_collection_def create_node_def
        list_update_append nth_append)
  show "root (insert_linked c pd pp) = root c"
    using find_add_to_collection[OF assms]
    by (simp add: insert_linked_def Let_def add_child_def add_to_collection_def)
qed

lemma insert_linked_facts:
  assumes "find_node_by_pid c pp = Some p"
  shows "length (nodes (insert_linked c pd pp)) = Suc (length (nodes c))"
    and "\<And>j. j < length (nodes c) \<Longrightarrow> data (nodes (insert_linked c pd pp) ! j) = data (nodes c ! j)"
    and "\<And>j. j < length (nodes c) \<Longrightarrow> parent (nodes (insert_linked c pd pp) ! j) = parent (nodes c ! j)"
    and "\<And>j. j < length (nodes c) \<Longrightarrow> children (nodes (insert_linked c pd pp) ! j) =
           (if j = p then children (nodes c ! p) @ [length (nodes c)] else children (nodes c ! j))"
    and "data (nodes (insert_linked c pd pp) ! length (nodes c)) =
           \<lparr>id' = id' pd, parent_id = parent_id pd, defunct_flag = defunct_flag pd\<rparr>"
    and "parent (nodes (insert_linked c pd pp) ! length (nodes c)) = Some p"
    and "children (nodes (insert_linked c pd pp) ! length (nodes c)) = []"
    and "root (insert_linked c pd pp) = root c"
  unfolding insert_linked_nodes[OF assms]
  using assms by (auto simp: nth_append nth_list_update find_node_by_pid_Some_iff)


lemma parents_okD:
  assumes "parents_ok c" "j < length (nodes c)" "parent (nodes c ! j) = Some q"
  shows "q < j" and "id' (data (nodes c ! q)) = parent_id (data (nodes c ! j))"
  using assms unfolding parents_ok_def by (force split: option.splits)+

lemma parents_ok_None:
  assumes "parents_ok c" "j < length (nodes c)"
  shows "parent (nodes c ! j) = None \<longleftrightarrow> j = 0"
  using assms unfolding parents_ok_def by (force split: option.splits)

lemma insert_linked_ids:
  assumes "find_node_by_pid c pp = Some p"
  shows "map (\<lambda>n. id' (data n)) (nodes (insert_linked c pd pp)) =
           map (\<lambda>n. id' (data n)) (nodes c) @ [id' pd]"
  unfolding insert_linked_nodes[OF assms]
  by (simp add: map_update_same)

lemma insert_linked_ext:
  assumes "find_node_by_pid c pp = Some p"
  shows "ext c (insert_linked c pd pp)"
  using insert_linked_facts[OF assms, where pd=pd] by (simp add: ext_def)

lemma insert_linked_tree_ok:
  assumes ok: "tree_ok c" and f: "find_node_by_pid c pp = Some p" and act: "active c p"
    and new: "id' pd \<notin> pids c" and pp: "parent_id pd = pp"
  shows "tree_ok (insert_linked c pd pp)"
proof -
  let ?c2 = "insert_linked c pd pp"
  let ?n = "length (nodes c)"
  note facts = insert_linked_facts[OF f, where pd=pd]
  have p: "p < ?n" and idp: "id' (data (nodes c ! p)) = pp"
    using f by (simp_all add: find_node_by_pid_Some_iff)
  have 1: "ids_distinct ?c2"
    using ok new by (simp add: ids_distinct_def insert_linked_ids[OF f] tree_ok_def pids_def)
  have 2: "root_ok ?c2"
    using ok p facts(1,8) by (auto simp: root_ok_def tree_ok_def)
  have par: "parents_ok c" and chi: "children_ok c" and pre: "preorder_ok c"
    using ok by (simp_all add: tree_ok_def)
  have 3: "parents_ok ?c2"
    unfolding parents_ok_def
  proof (intro allI impI)
    fix j assume j: "j < length (nodes ?c2)"
    show "case parent (nodes ?c2 ! j) of None \<Rightarrow> j = 0
          | Some q \<Rightarrow> q < j \<and> id' (data (nodes ?c2 ! q)) = parent_id (data (nodes ?c2 ! j))"
    proof (cases "j < ?n")
      case True
      with par have "case parent (nodes c ! j) of None \<Rightarrow> j = 0
          | Some q \<Rightarrow> q < j \<and> id' (data (nodes c ! q)) = parent_id (data (nodes c ! j))"
        by (simp add: parents_ok_def)
      with True show ?thesis
        by (auto simp: facts split: option.splits)
    next
      case False
      with j facts(1) have "j = ?n" by simp
      with p idp pp show ?thesis by (simp add: facts)
    qed
  qed
  have nopar: "parent (nodes c ! j) \<noteq> Some ?n" if "j < ?n" for j
  proof
    assume "parent (nodes c ! j) = Some ?n"
    from parents_okD(1)[OF par that this] that show False by simp
  qed
  have 4: "children_ok ?c2"
    unfolding children_ok_def
  proof (intro allI impI)
    fix i assume i: "i < length (nodes ?c2)"
    have eq: "filter (\<lambda>j. parent (nodes ?c2 ! j) = Some i) [0..<?n] =
              filter (\<lambda>j. parent (nodes c ! j) = Some i) [0..<?n]"
      by (rule filter_cong) (simp_all add: facts)
    show "children (nodes ?c2 ! i) =
            filter (\<lambda>j. parent (nodes ?c2 ! j) = Some i) [0..<length (nodes ?c2)]"
    proof (cases "i < ?n")
      case True
      with chi have "children (nodes c ! i) = filter (\<lambda>j. parent (nodes c ! j) = Some i) [0..<?n]"
        by (simp add: children_ok_def)
      with True show ?thesis
        by (auto simp: facts eq)
    next
      case False
      with i facts(1) have in': "i = ?n" by simp
      have "filter (\<lambda>j. parent (nodes c ! j) = Some ?n) [0..<?n] = []"
        using nopar by (simp add: filter_empty_conv)
      with in' p eq show ?thesis by (simp add: facts)
    qed
  qed
  have 5: "preorder_ok ?c2"
    unfolding preorder_ok_def
  proof (intro allI impI)
    fix k q j
    assume k: "k < length (nodes ?c2)" and kq: "parent (nodes ?c2 ! k) = Some q"
      and j: "q < j \<and> j < k"
    show "\<exists>q'. parent (nodes ?c2 ! j) = Some q' \<and> q \<le> q'"
    proof (cases "k < ?n")
      case True
      with pre kq j show ?thesis
        by (simp add: preorder_ok_def facts)
    next
      case False
      with k facts(1) have kn: "k = ?n" by simp
      with kq have "q = p" by (simp add: facts)
      with act j kn show ?thesis by (simp add: active_def facts)
    qed
  qed
  from 1 2 3 4 5 show ?thesis by (simp add: tree_ok_def)
qed

lemma insert_linked_find_new:
  assumes f: "find_node_by_pid c pp = Some p" and new: "id' pd \<notin> pids c"
  shows "find_node_by_pid (insert_linked c pd pp) (id' pd) = Some (length (nodes c))"
proof -
  have "id' (data (nodes c ! m)) \<noteq> id' pd" if "m < length (nodes c)" for m
    using new nth_mem[OF that] by (force simp: pids_def)
  then show ?thesis
    using insert_linked_facts[OF f, where pd=pd]
    by (simp add: find_node_by_pid_Some_iff)
qed

lemma insert_linked_active:
  assumes f: "find_node_by_pid c pp = Some p"
  shows "active (insert_linked c pd pp) (length (nodes c))"
  using insert_linked_facts(1)[OF f, where pd=pd] by (auto simp: active_def)


lemma active_after_rescan:
  assumes f: "find_node_by_pid c pp = Some p" and act: "active c p"
    and e: "ext (insert_linked c pd pp) c3" and act3: "active c3 (length (nodes c))"
  shows "active c3 p"
  unfolding active_def
proof (intro allI impI)
  fix j assume j: "p < j \<and> j < length (nodes c3)"
  let ?n = "length (nodes c)"
  note facts = insert_linked_facts[OF f, where pd=pd]
  have p: "p < ?n" using f by (simp add: find_node_by_pid_Some_iff)
  consider "j < ?n" | "j = ?n" | "?n < j" by linarith
  then show "\<exists>q. parent (nodes c3 ! j) = Some q \<and> p \<le> q"
  proof cases
    case 1
    then have "parent (nodes c3 ! j) = parent (nodes c ! j)"
      using e facts by (simp add: ext_def)
    with act j 1 show ?thesis by (simp add: active_def)
  next
    case 2
    then have "parent (nodes c3 ! j) = Some p"
      using e facts by (simp add: ext_def)
    then show ?thesis by simp
  next
    case 3
    with act3 j obtain q where "parent (nodes c3 ! j) = Some q" "?n \<le> q"
      by (auto simp: active_def)
    with p show ?thesis by simp
  qed
qed

lemma discover_loop_ok:
  "tree_ok c \<Longrightarrow> find_node_by_pid c pp = Some p \<Longrightarrow> active c p \<Longrightarrow>
     tree_ok (discover_loop snap c pp es) \<and> active (discover_loop snap c pp es) p
       \<and> ext c (discover_loop snap c pp es)"
proof (induction snap c pp es arbitrary: p rule: discover_loop.induct)
  case (1 snap c parent_pid)
  then show ?case by (simp add: ext_refl)
next
  case (2 snap c parent_pid pid rest)
  note ok = "2.prems"(1) and f = "2.prems"(2) and act = "2.prems"(3)
  show ?case
  proof (cases "pid > 0")
    case False
    with "2.IH"(6)[OF False ok f act] show ?thesis by simp
  next
    case pos: True
    show ?thesis
    proof (cases "fetch_process_data snap pid")
      case None
      with "2.IH"(1)[OF pos None ok f act] pos show ?thesis by simp
    next
      case (Some pd)
      show ?thesis
      proof (cases "parent_id pd = parent_pid")
        case False
        with "2.IH"(5)[OF pos Some False ok f act] pos Some show ?thesis by simp
      next
        case same: True
        show ?thesis
        proof (cases "find_node_by_pid c pid \<noteq> None")
          case True
          with "2.IH"(2)[OF pos Some same True ok f act] pos Some same show ?thesis by simp
        next
          case False
          let ?c2 = "insert_linked c pd parent_pid"
          let ?c3 = "discover_loop snap ?c2 pid (entries snap)"
          let ?c4 = "discover_loop snap ?c3 parent_pid rest"
          have new: "id' pd \<notin> pids c"
            using False fetch_id[OF Some] by (simp add: find_node_by_pid_None)
          have ok2: "tree_ok ?c2" by (rule insert_linked_tree_ok[OF ok f act new same])
          have f2: "find_node_by_pid ?c2 pid = Some (length (nodes c))"
            using insert_linked_find_new[OF f new] fetch_id[OF Some] by simp
          have act2: "active ?c2 (length (nodes c))" by (rule insert_linked_active[OF f])
          from "2.IH"(3)[OF pos Some same False ok2 f2 act2]
          have ok3: "tree_ok ?c3" and act3: "active ?c3 (length (nodes c))" and e23: "ext ?c2 ?c3"
            by simp_all
          have e13: "ext c ?c3" by (rule ext_trans[OF insert_linked_ext[OF f] e23])
          have f3: "find_node_by_pid ?c3 parent_pid = Some p" by (rule find_ext[OF f e13])
          have act3p: "active ?c3 p" by (rule active_after_rescan[OF f act e23 act3])
          from "2.IH"(4)[OF pos Some same False ok3 f3 act3p]
          have "tree_ok ?c4" "active ?c4 p" "ext ?c3 ?c4" by simp_all
          with e13 have "tree_ok ?c4 \<and> active ?c4 p \<and> ext c ?c4"
            by (auto intro: ext_trans)
          with pos Some same False show ?thesis by simp
        qed
      qed
    qed
  qed
qed


lemma build_without_reconciliation_absent:
  "fetch_process_data snap root_pid = None \<Longrightarrow>
     build_without_reconciliation snap init_collection root_pid = init_collection"
  by (simp add: build_without_reconciliation_def)

lemma tree_ok_empty: "tree_ok init_collection"
  by (simp add: tree_ok_def init_collection_def ids_distinct_def root_ok_def parents_ok_def
      children_ok_def preorder_ok_def)

lemma build_without_reconciliation_present:
  assumes "fetch_process_data snap root_pid = Some rd"
  defines "c1 \<equiv> build_without_reconciliation snap init_collection root_pid"
  shows "tree_ok c1" and "active c1 0" and "nodes c1 \<noteq> []" and "root c1 = Some 0"
    and "data (nodes c1 ! 0) = rd"
proof -
  let ?c0 = "\<lparr>nodes = [create_node root_pid (parent_id rd) (defunct_flag rd)], root = Some 0\<rparr>"
  have c1: "c1 = discover_loop snap ?c0 root_pid (entries snap)"
    using assms(1)
    by (simp add: c1_def build_without_reconciliation_def discover_children_def init_collection_def
        add_to_collection_def)
  have ok0: "tree_ok ?c0"
    by (simp add: tree_ok_def ids_distinct_def root_ok_def parents_ok_def children_ok_def
        preorder_ok_def create_node_def)
  have f0: "find_node_by_pid ?c0 root_pid = Some 0"
    by (simp add: find_node_by_pid_def create_node_def)
  have a0: "active ?c0 0" by (simp add: active_def)
  from discover_loop_ok[OF ok0 f0 a0, of snap "entries snap"]
  have *: "tree_ok c1" "active c1 0" "ext ?c0 c1" by (simp_all add: c1)
  from * show "tree_ok c1" "active c1 0" by simp_all
  from *(3) show "nodes c1 \<noteq> []" "root c1 = Some 0" by (auto simp: ext_def)
  from *(3) have "data (nodes c1 ! 0) = data (create_node root_pid (parent_id rd) (defunct_flag rd))"
    by (simp add: ext_def)
  also have "\<dots> = rd" using fetch_id[OF assms(1)] by (simp add: create_node_def)
  finally show "data (nodes c1 ! 0) = rd" .
qed

lemma link_loop_id:
  assumes "tree_ok c" "nodes c \<noteq> [] \<Longrightarrow> id' (data (nodes c ! 0)) = root_pid"
    and "\<forall>i \<in> set is. i < length (nodes c)"
  shows "link_loop c root_pid is = c"
  using assms(3)
proof (induction "is")
  case Nil
  then show ?case by simp
next
  case (Cons i rest)
  then have i: "i < length (nodes c)" by simp
  have par: "parents_ok c" and dis: "ids_distinct c" using assms(1) by (simp_all add: tree_ok_def)
  have "(if id' (data (nodes c ! i)) \<noteq> root_pid then
          (case find_node_by_pid c (parent_id (data (nodes c ! i))) of
             Some p \<Rightarrow> if parent (nodes c ! i) = None then add_child c p i else c
           | None \<Rightarrow> c)
        else c) = c"
  proof (cases "i = 0")
    case True
    with i assms(2) show ?thesis by auto
  next
    case False
    with parents_ok_None[OF par i] have "parent (nodes c ! i) \<noteq> None" by simp
    then show ?thesis by (auto split: option.splits)
  qed
  with Cons show ?case by simp
qed

lemma build_eq_build_without_reconciliation:
  "build_process_hierarchy snap init_collection root_pid =
     build_without_reconciliation snap init_collection root_pid"
proof (cases "fetch_process_data snap root_pid")
  case None
  then show ?thesis
    by (simp add: build_process_hierarchy_def build_without_reconciliation_absent)
       (simp add: init_collection_def)
next
  case (Some rd)
  let ?c1 = "build_without_reconciliation snap init_collection root_pid"
  have "link_loop ?c1 root_pid [0..<length (nodes ?c1)] = ?c1"
    using build_without_reconciliation_present[OF Some] fetch_id[OF Some]
    by (intro link_loop_id) simp_all
  then show ?thesis by (simp add: build_process_hierarchy_def Let_def)
qed

lemma build_tree_ok: "tree_ok (build_process_hierarchy snap init_collection root_pid)"
  unfolding build_eq_build_without_reconciliation
  by (cases "fetch_process_data snap root_pid")
     (simp_all add: build_without_reconciliation_absent tree_ok_empty build_without_reconciliation_present)


lemma discover_loop_pids_upper:
  "pids (discover_loop snap c pp es) \<subseteq> pids c \<union> set es \<union> set (entries snap)"
proof (induction snap c pp es rule: discover_loop.induct)
  case (1 snap c parent_pid)
  then show ?case by simp
next
  case (2 snap c parent_pid pid rest)
  show ?case
  proof (cases "0 < pid \<and> (\<exists>pd. fetch_process_data snap pid = Some pd \<and> parent_id pd = parent_pid)
                 \<and> find_node_by_pid c pid = None")
    case True
    then obtain pd where pd: "0 < pid" "fetch_process_data snap pid = Some pd"
      "parent_id pd = parent_pid" "\<not> find_node_by_pid c pid \<noteq> None" by auto
    from "2.IH"(3)[OF pd] "2.IH"(4)[OF pd] fetch_id[OF pd(2)]
    have "pids (discover_loop snap (discover_loop snap (insert_linked c pd parent_pid) pid
              (entries snap)) parent_pid rest) \<subseteq> pids c \<union> set (pid # rest) \<union> set (entries snap)"
      by (auto simp: pids_insert_linked)
    with pd show ?thesis by simp
  next
    case False
    have "discover_loop snap c parent_pid (pid # rest) = discover_loop snap c parent_pid rest"
      using False by (auto split: option.splits)
    moreover have "pids (discover_loop snap c parent_pid rest) \<subseteq> pids c \<union> set rest \<union> set (entries snap)"
      using False "2.IH"(1,2,5,6) by (cases "fetch_process_data snap pid") force+
    ultimately show ?thesis by auto
  qed
qed

lemma build_size:
  "length (nodes (build_process_hierarchy snap init_collection root_pid)) \<le> Suc (length (entries snap))"
proof -
  let ?c = "build_process_hierarchy snap init_collection root_pid"
  have "pids ?c \<subseteq> insert root_pid (set (entries snap))"
  proof (cases "fetch_process_data snap root_pid")
    case None
    then show ?thesis
      by (simp add: build_eq_build_without_reconciliation build_without_reconciliation_absent)
         (simp add: pids_def init_collection_def)
  next
    case (Some rd)
    let ?start = "(add_to_collection init_collection
                  (create_node root_pid (parent_id rd) (defunct_flag rd)))\<lparr>root := Some 0\<rparr>"
    have c: "?c = discover_loop snap ?start root_pid (entries snap)"
      using Some
      by (simp add: build_eq_build_without_reconciliation build_without_reconciliation_def
          discover_children_def)
         (simp add: init_collection_def)
    have "pids ?start = {root_pid}"
      by (simp add: pids_def init_collection_def add_to_collection_def create_node_def)
    with discover_loop_pids_upper[of snap ?start root_pid "entries snap"] show ?thesis
      unfolding c by auto
  qed
  then have "card (pids ?c) \<le> card (insert root_pid (set (entries snap)))"
    by (intro card_mono) auto
  also have "\<dots> \<le> Suc (card (set (entries snap)))" by (simp add: card_insert_if)
  also have "\<dots> \<le> Suc (length (entries snap))" by (simp add: card_length)
  finally have "card (pids ?c) \<le> Suc (length (entries snap))" .
  moreover have "card (pids ?c) = length (nodes ?c)"
    using build_tree_ok[of snap root_pid]
    by (simp add: tree_ok_def ids_distinct_def pids_def distinct_card del: set_map)
  ultimately show ?thesis by simp
qed

lemma root_ok_Some:
  assumes "root_ok c" "i < length (nodes c)"
  shows "root c = Some 0"
  using assms by (cases "nodes c") (auto simp: root_ok_def)

lemma follow_parent_root:
  assumes "parents_ok c" "i < length (nodes c)"
  shows "\<exists>k\<le>i. follow_parent c k i = Some 0"
  using assms(2)
proof (induction i rule: less_induct)
  case (less i)
  show ?case
  proof (cases "parent (nodes c ! i)")
    case None
    with parents_ok_None[OF assms(1) less.prems] have "i = 0" by simp
    then show ?thesis by (intro exI[of _ 0]) simp
  next
    case (Some p)
    from parents_okD(1)[OF assms(1) less.prems Some] have p: "p < i" .
    with less.prems have "p < length (nodes c)" by simp
    from less.IH[OF p this] obtain k where "k \<le> p" "follow_parent c k p = Some 0" by blast
    with p Some show ?thesis by (intro exI[of _ "Suc k"]) simp
  qed
qed

lemma count_list_filter_upt:
  "count_list (filter P [0..<n]) i = (if i < n \<and> P i then 1 else 0)"
  by (induction n) auto

subsection \<open>The depth-first walks\<close>

lemma collect_defunct_loop_Nil [simp, code]: "collect_defunct_loop c [] r = Some (Inr r)"
  by (subst collect_defunct_loop.simps) simp

lemma collect_defunct_loop_Cons [simp, code]:
  "collect_defunct_loop c (child # rest) r =
     obind (Some (if defunct_flag (data (nodes c ! child))
                  then store_id r (id' (data (nodes c ! child))) else Inr r))
       (\<lambda>r1. obind (collect_defunct_loop c (children (nodes c ! child)) r1)
          (\<lambda>r2. collect_defunct_loop c rest r2))"
  by (subst collect_defunct_loop.simps) simp

lemma store_all_append:
  "store_all r (xs @ ys) =
     (case store_all r xs of Inl f \<Rightarrow> Inl f | Inr r1 \<Rightarrow> store_all r1 ys)"
  by (induction xs arbitrary: r) (auto split: sum.splits)

lemma store_all_eq:
  "length (result_ids r) \<le> RESULT_CAPACITY \<Longrightarrow>
   store_all r xs =
     (if length (result_ids r) + length xs \<le> RESULT_CAPACITY
      then Inr (r\<lparr>result_ids := result_ids r @ xs\<rparr>) else Inl BufferOverflow)"
  by (induction xs arbitrary: r) (auto simp: store_id_def)

lemma obind_Some_Inr [simp]: "obind (Some (Inr x)) f = f x"
  by (simp add: obind_def)

lemma obind_Some_Inl [simp]: "obind (Some (Inl e)) f = Some (Inl e)"
  by (simp add: obind_def)

lemma obind_None [simp]: "obind None f = None"
  by (simp add: obind_def)

lemma subtree_end_bounds:
  assumes "i < length (nodes c)"
  shows "i < subtree_end c i" and "subtree_end c i \<le> length (nodes c)"
proof -
  show "i < subtree_end c i" by (simp add: subtree_end_def)
  have "length (takeWhile (below c i) [Suc i..<length (nodes c)]) \<le> length [Suc i..<length (nodes c)]"
    by (rule length_takeWhile_le)
  with assms show "subtree_end c i \<le> length (nodes c)" by (simp add: subtree_end_def)
qed

lemma subtree_end_below:
  assumes "i < j" "j < subtree_end c i"
  shows "below c i j"
proof -
  let ?xs = "[Suc i..<length (nodes c)]"
  let ?k = "length (takeWhile (below c i) ?xs)"
  obtain m where m: "j = Suc i + m" "m < ?k"
    using assms by (auto simp: subtree_end_def intro: that[of "j - Suc i"])
  have "m < length ?xs" using m(2) length_takeWhile_le[of "below c i" ?xs] by linarith
  then have "?xs ! m = j" using m(1) by simp
  moreover have "takeWhile (below c i) ?xs ! m = ?xs ! m" using m(2) by (rule takeWhile_nth)
  moreover have "takeWhile (below c i) ?xs ! m \<in> set (takeWhile (below c i) ?xs)"
    using m(2) by (rule nth_mem)
  ultimately have "j \<in> set (takeWhile (below c i) ?xs)" by simp
  then show ?thesis by (rule set_takeWhileD[THEN conjunct2])
qed

lemma subtree_end_stop:
  assumes "subtree_end c i < length (nodes c)"
  shows "\<not> below c i (subtree_end c i)"
proof -
  let ?xs = "[Suc i..<length (nodes c)]"
  let ?k = "length (takeWhile (below c i) ?xs)"
  have k: "?k < length ?xs" using assms by (simp add: subtree_end_def)
  then have "?xs ! ?k = subtree_end c i" by (simp add: subtree_end_def)
  with nth_length_takeWhile[OF k] show ?thesis by simp
qed

lemma subtree_end_greatest:
  assumes "i < b" "b \<le> length (nodes c)" "\<And>j. i < j \<Longrightarrow> j < b \<Longrightarrow> below c i j"
  shows "b \<le> subtree_end c i"
proof (rule ccontr)
  assume "\<not> b \<le> subtree_end c i"
  then have lt: "subtree_end c i < b" by simp
  with assms(2) have "subtree_end c i < length (nodes c)" by simp
  from subtree_end_stop[OF this] assms(3)[OF _ lt] show False
    by (simp add: subtree_end_def)
qed

lemma upt_split: "a \<le> m \<Longrightarrow> m \<le> b \<Longrightarrow> [a..<b] = [a..<m] @ [m..<b]"
  using upt_add_eq_append[of a m "b - m"] by simp

lemma filter_upt_skip:
  assumes "a \<le> b" "\<And>j. a \<le> j \<Longrightarrow> j < b \<Longrightarrow> \<not> P j"
  shows "filter P [a..<n] = filter P [b..<n]"
proof (cases "b \<le> n")
  case True
  with assms(1) have "[a..<n] = [a..<b] @ [b..<n]" by (rule upt_split)
  moreover have "filter P [a..<b] = []" using assms(2) by (auto simp: filter_empty_conv)
  ultimately show ?thesis by simp
next
  case False
  then have "filter P [a..<n] = []" using assms(2) by (auto simp: filter_empty_conv)
  with False show ?thesis by simp
qed

lemma zombie_ids_split:
  "a \<le> m \<Longrightarrow> m \<le> b \<Longrightarrow> zombie_ids c a b = zombie_ids c a m @ zombie_ids c m b"
  using upt_split[of a m b] by (simp add: zombie_ids_def)

lemma zombie_ids_first:
  "a < b \<Longrightarrow> zombie_ids c a b =
     (if defunct_flag (data (nodes c ! a)) then [id' (data (nodes c ! a))] else [])
       @ zombie_ids c (Suc a) b"
  by (simp only: upt_conv_Cons[of a b] zombie_ids_def) simp


lemma store_all_single: "store_all r [v] = store_id r v"
  by (simp split: sum.splits)

lemma obind_store_all:
  "obind (Some (store_all r xs)) (\<lambda>r1. Some (store_all r1 ys)) = Some (store_all r (xs @ ys))"
  by (simp add: store_all_append obind_def split: sum.splits)

lemma belowD:
  assumes "below c i j"
  obtains q where "parent (nodes c ! j) = Some q" "i \<le> q"
  using assms by (auto simp: below_def split: option.splits)

lemma belowI: "parent (nodes c ! j) = Some q \<Longrightarrow> i \<le> q \<Longrightarrow> below c i j"
  by (simp add: below_def)

lemma preorder_okD:
  assumes "preorder_ok c" "k < length (nodes c)" "parent (nodes c ! k) = Some p" "p < j" "j < k"
  shows "below c p j"
  using assms unfolding preorder_ok_def below_def by fastforce

lemma children_from:
  assumes "parents_ok c" "children_ok c" "i < length (nodes c)"
  shows "children (nodes c ! i) =
           filter (\<lambda>j. parent (nodes c ! j) = Some i) [Suc i..<length (nodes c)]"
proof -
  have "children (nodes c ! i) = filter (\<lambda>j. parent (nodes c ! j) = Some i) [0..<length (nodes c)]"
    using assms(2,3) by (simp add: children_ok_def)
  also have "\<dots> = filter (\<lambda>j. parent (nodes c ! j) = Some i) [Suc i..<length (nodes c)]"
  proof (rule filter_upt_skip)
    fix j assume j: "0 \<le> j" "j < Suc i"
    show "parent (nodes c ! j) \<noteq> Some i"
    proof
      assume "parent (nodes c ! j) = Some i"
      from parents_okD(1)[OF assms(1) _ this] j assms(3) show False by simp
    qed
  qed simp
  finally show ?thesis .
qed

lemma no_child_after_end:
  assumes pre: "preorder_ok c" and i: "i < length (nodes c)"
    and j: "subtree_end c i \<le> j" "j < length (nodes c)"
  shows "parent (nodes c ! j) \<noteq> Some i"
proof
  assume pj: "parent (nodes c ! j) = Some i"
  from j have e: "subtree_end c i < length (nodes c)" by simp
  have "below c i (subtree_end c i)"
  proof (cases "j = subtree_end c i")
    case True
    with pj show ?thesis by (simp add: belowI)
  next
    case False
    with j have "subtree_end c i < j" by simp
    from preorder_okD[OF pre j(2) pj subtree_end_bounds(1)[OF i] this] show ?thesis .
  qed
  with subtree_end_stop[OF e] show False by simp
qed

lemma first_in_subtree_is_child:
  assumes par: "parents_ok c" and a: "a < length (nodes c)" and lt: "Suc a < subtree_end c a"
  shows "parent (nodes c ! Suc a) = Some a"
proof -
  from subtree_end_below[OF _ lt] obtain q where q: "parent (nodes c ! Suc a) = Some q" "a \<le> q"
    by (auto elim: belowD)
  from lt subtree_end_bounds(2)[OF a] have "Suc a < length (nodes c)" by simp
  from parents_okD(1)[OF par this q(1)] q(2) have "q = a" by simp
  with q show ?thesis by simp
qed

lemma next_sibling:
  assumes par: "parents_ok c" and pre: "preorder_ok c"
    and i: "i < length (nodes c)" and ia: "i < a" and ae: "a < subtree_end c i"
    and pa: "parent (nodes c ! a) = Some i"
  shows "subtree_end c a \<le> subtree_end c i"
    and "subtree_end c a < subtree_end c i \<Longrightarrow> parent (nodes c ! subtree_end c a) = Some i"
proof -
  have an: "a < length (nodes c)" using ae subtree_end_bounds(2)[OF i] by simp
  note ea = subtree_end_bounds[OF an]
  show le: "subtree_end c a \<le> subtree_end c i"
  proof (rule subtree_end_greatest)
    show "i < subtree_end c a" using ia ea(1) by simp
    show "subtree_end c a \<le> length (nodes c)" by (rule ea(2))
    fix j assume j: "i < j" "j < subtree_end c a"
    consider "j < a" | "j = a" | "a < j" by linarith
    then show "below c i j"
    proof cases
      case 1
      with ae have "j < subtree_end c i" by simp
      from subtree_end_below[OF j(1) this] show ?thesis .
    next
      case 2
      with pa show ?thesis by (simp add: belowI)
    next
      case 3
      from subtree_end_below[OF 3 j(2)] obtain q where "parent (nodes c ! j) = Some q" "a \<le> q"
        by (auto elim: belowD)
      with ia show ?thesis by (intro belowI[of _ _ q]) simp_all
    qed
  qed
  assume lt: "subtree_end c a < subtree_end c i"
  let ?b = "subtree_end c a"
  have bn: "?b < length (nodes c)" using lt subtree_end_bounds(2)[OF i] by simp
  have "i < ?b" using ia ea(1) by simp
  from subtree_end_below[OF this lt] obtain q where q: "parent (nodes c ! ?b) = Some q" "i \<le> q"
    by (auto elim: belowD)
  from subtree_end_stop[OF bn] q(1) have qa: "q < a" by (auto simp: below_def)
  have "q = i"
  proof (rule ccontr)
    assume "q \<noteq> i"
    with q(2) have "i < q" by simp
    from preorder_okD[OF pre bn q(1) qa ea(1)] pa have "q \<le> i" by (auto elim: belowD)
    with \<open>i < q\<close> show False by simp
  qed
  with q(1) show "parent (nodes c ! ?b) = Some i" by simp
qed

lemma collect_defunct_interval:
  assumes ok: "tree_ok c"
  shows "i < length (nodes c) \<Longrightarrow> i < a \<Longrightarrow> a \<le> subtree_end c i \<Longrightarrow>
     (a < subtree_end c i \<Longrightarrow> parent (nodes c ! a) = Some i) \<Longrightarrow>
     collect_defunct_loop c
       (filter (\<lambda>j. parent (nodes c ! j) = Some i) [a..<length (nodes c)]) r =
     Some (store_all r (zombie_ids c a (subtree_end c i)))"
proof (induction "length (nodes c) - a" arbitrary: i a r rule: less_induct)
  case less
  let ?n = "length (nodes c)"
  let ?e = "subtree_end c i"
  from ok have par: "parents_ok c" and chi: "children_ok c" and pre: "preorder_ok c"
    by (simp_all add: tree_ok_def)
  note i = less.prems(1) and ia = less.prems(2) and ae = less.prems(3)
  show ?case
  proof (cases "a < ?e")
    case False
    with ae have a: "a = ?e" by simp
    have "filter (\<lambda>j. parent (nodes c ! j) = Some i) [a..<?n] = []"
      using no_child_after_end[OF pre i] a by (auto simp: filter_empty_conv)
    with a show ?thesis by (simp add: zombie_ids_def)
  next
    case True
    then have pa: "parent (nodes c ! a) = Some i" by (rule less.prems(4))
    have an: "a < ?n" using True subtree_end_bounds(2)[OF i] by simp
    let ?ea = "subtree_end c a"
    note ea = subtree_end_bounds[OF an]
    note sib = next_sibling[OF par pre i ia True pa]
    have kids: "collect_defunct_loop c (children (nodes c ! a)) r1 =
                  Some (store_all r1 (zombie_ids c (Suc a) ?ea))" for r1
    proof -
      have "collect_defunct_loop c
              (filter (\<lambda>j. parent (nodes c ! j) = Some a) [Suc a..<?n]) r1 =
            Some (store_all r1 (zombie_ids c (Suc a) ?ea))"
      proof (rule less.hyps)
        show "?n - Suc a < ?n - a" using an by simp
        show "a < ?n" by (rule an)
        show "a < Suc a" by simp
        show "Suc a \<le> ?ea" using ea(1) by simp
        show "Suc a < ?ea \<Longrightarrow> parent (nodes c ! Suc a) = Some a"
          by (rule first_in_subtree_is_child[OF par an])
      qed
      then show ?thesis by (simp add: children_from[OF par chi an])
    qed
    have skip: "filter (\<lambda>j. parent (nodes c ! j) = Some i) [Suc a..<?n] =
                filter (\<lambda>j. parent (nodes c ! j) = Some i) [?ea..<?n]"
    proof (rule filter_upt_skip)
      show "Suc a \<le> ?ea" using ea(1) by simp
      fix j assume j: "Suc a \<le> j" "j < ?ea"
      then have "a < j" by simp
      from subtree_end_below[OF this j(2)] obtain q where "parent (nodes c ! j) = Some q" "a \<le> q"
        by (auto elim: belowD)
      with ia show "parent (nodes c ! j) \<noteq> Some i" by auto
    qed
    have rest: "collect_defunct_loop c
                  (filter (\<lambda>j. parent (nodes c ! j) = Some i) [?ea..<?n]) r2 =
                Some (store_all r2 (zombie_ids c ?ea ?e))" for r2
    proof (rule less.hyps)
      show "?n - ?ea < ?n - a" using an ea by linarith
      show "i < ?n" by (rule i)
      show "i < ?ea" using ia ea(1) by simp
      show "?ea \<le> ?e" by (rule sib(1))
      show "?ea < ?e \<Longrightarrow> parent (nodes c ! ?ea) = Some i" by (rule sib(2))
    qed
    have split: "filter (\<lambda>j. parent (nodes c ! j) = Some i) [a..<?n] =
                 a # filter (\<lambda>j. parent (nodes c ! j) = Some i) [?ea..<?n]"
      using an pa skip by (simp add: upt_conv_Cons)
    let ?F = "if defunct_flag (data (nodes c ! a)) then [id' (data (nodes c ! a))] else []"
    have first: "(if defunct_flag (data (nodes c ! a))
                  then store_id r (id' (data (nodes c ! a))) else Inr r) = store_all r ?F"
      by (simp split: sum.splits)
    have zs: "zombie_ids c a ?e = ?F @ (zombie_ids c (Suc a) ?ea @ zombie_ids c ?ea ?e)"
      using zombie_ids_first[OF True, of c] zombie_ids_split[of "Suc a" ?ea ?e c] ea(1) sib(1)
      by simp
    have "collect_defunct_loop c (filter (\<lambda>j. parent (nodes c ! j) = Some i) [a..<?n]) r =
          obind (Some (store_all r ?F))
            (\<lambda>r1. obind (Some (store_all r1 (zombie_ids c (Suc a) ?ea)))
               (\<lambda>r2. Some (store_all r2 (zombie_ids c ?ea ?e))))"
      unfolding split collect_defunct_loop_Cons first kids rest ..
    also have "\<dots> = Some (store_all r (zombie_ids c a ?e))"
      unfolding obind_store_all zs ..
    finally show ?thesis .
  qed
qed

lemma build_root:
  "root (build_process_hierarchy snap init_collection root_pid) =
     (if status snap root_pid = None then None else Some 0)"
  and build_root_id:
  "status snap root_pid \<noteq> None \<Longrightarrow>
     id' (data (nodes (build_process_hierarchy snap init_collection root_pid) ! 0)) = root_pid"
proof -
  show "root (build_process_hierarchy snap init_collection root_pid) =
     (if status snap root_pid = None then None else Some 0)"
  proof (cases "fetch_process_data snap root_pid")
    case None
    then have "status snap root_pid = None"
      by (auto simp: fetch_process_data_def split: option.splits)
    with None show ?thesis
      by (simp add: build_eq_build_without_reconciliation build_without_reconciliation_absent)
         (simp add: init_collection_def)
  next
    case (Some rd)
    then have "status snap root_pid \<noteq> None"
      by (auto simp: fetch_process_data_def split: option.splits)
    with build_without_reconciliation_present(4)[OF Some] show ?thesis
      by (simp add: build_eq_build_without_reconciliation)
  qed
next
  assume "status snap root_pid \<noteq> None"
  then obtain rd where rd: "fetch_process_data snap root_pid = Some rd"
    by (auto simp: fetch_process_data_def split: option.splits)
  from build_without_reconciliation_present(5)[OF rd] fetch_id[OF rd]
  show "id' (data (nodes (build_process_hierarchy snap init_collection root_pid) ! 0)) = root_pid"
    by (simp add: build_eq_build_without_reconciliation)
qed

lemma handle_kill_root_built:
  "handle_kill_root (build_process_hierarchy snap init_collection root_pid) pid w =
     Some (Inr (init_result None,
                if status snap root_pid = None then w else kill w root_pid SIGKILL))"
  using build_root_id[of snap root_pid]
  by (simp add: handle_kill_root_def build_root)

lemma get_defunct_descendants_ok:
  assumes ok: "tree_ok c" and f: "find_node_by_pid c pid = Some t"
  shows "get_defunct_descendants c pid =
           Some (store_all (init_result (Some ''No descendant zombie process/es''))
                   (zombie_ids c (Suc t) (subtree_end c t)))"
proof -
  from ok have par: "parents_ok c" and chi: "children_ok c" by (simp_all add: tree_ok_def)
  have t: "t < length (nodes c)" using f by (simp add: find_node_by_pid_Some_iff)
  have "collect_defunct_loop c
          (filter (\<lambda>j. parent (nodes c ! j) = Some t) [Suc t..<length (nodes c)]) r =
        Some (store_all r (zombie_ids c (Suc t) (subtree_end c t)))" for r
    using subtree_end_bounds(1)[OF t]
    by (intro collect_defunct_interval[OF ok t] first_in_subtree_is_child[OF par t]) simp_all
  then show ?thesis
    using f
    by (simp add: get_defunct_descendants_def collect_defunct_descendants_def
        children_from[OF par chi t])
qed

lemma subtree_end_root:
  assumes "parents_ok c" "0 < length (nodes c)"
  shows "subtree_end c 0 = length (nodes c)"
proof -
  have "length (nodes c) \<le> subtree_end c 0"
  proof (rule subtree_end_greatest)
    fix j assume j: "0 < j" "j < length (nodes c)"
    with parents_ok_None[OF assms(1) j(2)] show "below c 0 j"
      by (auto simp: below_def split: option.splits)
  qed (use assms in simp_all)
  with subtree_end_bounds(2)[OF assms(2)] show ?thesis by simp
qed

lemma count_zombies_split:
  assumes "0 < length (nodes c)"
  shows "count_zombies c =
           length (zombie_ids c (Suc 0) (length (nodes c)))
             + (if defunct_flag (data (nodes c ! 0)) then 1 else 0)"
proof -
  have "filter (\<lambda>n. defunct_flag (data n)) (nodes c) =
        map ((!) (nodes c)) (filter (\<lambda>j. defunct_flag (data (nodes c ! j))) [0..<length (nodes c)])"
    using filter_map[of "\<lambda>n. defunct_flag (data n)" "(!) (nodes c)" "[0..<length (nodes c)]"]
    by (simp add: map_nth comp_def)
  then have "count_zombies c = length (zombie_ids c 0 (length (nodes c)))"
    by (simp add: count_zombies_def zombie_ids_def)
  with zombie_ids_first[OF assms, of c] show ?thesis by simp
qed

lemma kill_parents_loop_eq:
  "length (result_ids r) + length (concat (map (signalled_parent c) zs)) \<le> RESULT_CAPACITY \<Longrightarrow>
   kill_parents_loop c zs (r, w) =
     Some (Inr (r\<lparr>result_ids := result_ids r @ concat (map (signalled_parent c) zs)\<rparr>,
                w\<lparr>signals := signals w @
                     map (\<lambda>p. (p, SIGKILL)) (concat (map (signalled_parent c) zs))\<rparr>))"
proof (induction zs arbitrary: r w)
  case Nil
  then show ?case by simp
next
  case (Cons z zs)
  show ?case
  proof (cases "signalled_parent c z = []")
    case True
    with Cons.prems have "length (result_ids r) + length (concat (map (signalled_parent c) zs))
        \<le> RESULT_CAPACITY" by simp
    from Cons.IH[OF this, of w] True show ?thesis
      by (auto simp: signalled_parent_def split: option.splits if_splits)
  next
    case False
    then obtain n where n: "find_node_by_pid c z = Some n" "1 < parent_id (data (nodes c ! n))"
      "signalled_parent c z = [parent_id (data (nodes c ! n))]"
      by (auto simp: signalled_parent_def split: option.splits if_splits)
    let ?p = "parent_id (data (nodes c ! n))"
    from Cons.prems n(3) have room: "length (result_ids r) < RESULT_CAPACITY" by simp
    let ?r1 = "r\<lparr>result_ids := result_ids r @ [?p]\<rparr>"
    have "length (result_ids ?r1) + length (concat (map (signalled_parent c) zs)) \<le> RESULT_CAPACITY"
      using Cons.prems n(3) by simp
    from Cons.IH[OF this, of "kill w ?p SIGKILL"] n room show ?thesis
      by (simp add: store_id_def kill_def)
  qed
qed

lemma signalled_parent_found:
  "\<forall>z\<in>set zs. find_node_by_pid c z \<noteq> None \<Longrightarrow>
   concat (map (signalled_parent c) zs) =
     filter (\<lambda>p. 1 < p) (map (\<lambda>z. parent_id (the (metadata_of c z))) zs)"
  by (induction zs) (auto simp: signalled_parent_def metadata_of_def)

lemma zombie_ids_found:
  assumes "ids_distinct c" "b \<le> length (nodes c)" "z \<in> set (zombie_ids c a b)"
  shows "\<exists>m. metadata_of c z = Some m \<and> id' m = z \<and> defunct_flag m"
proof -
  from assms(3) obtain j where j: "a \<le> j" "j < b" "defunct_flag (data (nodes c ! j))"
    "z = id' (data (nodes c ! j))" by (auto simp: zombie_ids_def)
  with assms(2) have "j < length (nodes c)" by simp
  from find_node_by_pid_distinct[OF assms(1) this] j show ?thesis
    by (simp add: metadata_of_def)
qed

subsection \<open>Walking the parent chain\<close>

lemma ancestor_walk_None [simp, code]:
  "ancestor_walk c pid signal_type current None rw = Some (Inr rw)"
  by (subst ancestor_walk.simps) simp

lemma ancestor_walk_Some [code]:
  "ancestor_walk c pid signal_type current (Some p) rw =
     (if id' (data (nodes c ! p)) = pid then
        (let w1 = kill (snd rw) (id' (data (nodes c ! current))) signal_type
         in case store_id (fst rw) (id' (data (nodes c ! current))) of
              Inl f \<Rightarrow> Some (Inl f)
            | Inr r1 \<Rightarrow> Some (Inr (r1, w1)))
      else ancestor_walk c pid signal_type current (parent (nodes c ! p)) rw)"
  by (subst ancestor_walk.simps) simp




lemma ancestor_walk_eq:
  assumes par: "parents_ok c"
  shows "p < length (nodes c) \<Longrightarrow> p < k \<Longrightarrow>
     ancestor_walk c pid signal_type current (Some p) (r, w) =
       (if pid \<in> set (map (\<lambda>a. id' (data (nodes c ! a))) (chain c k (Some p)))
        then (case store_id r (id' (data (nodes c ! current))) of
                Inl f \<Rightarrow> Some (Inl f)
              | Inr r1 \<Rightarrow>
                  Some (Inr (r1, kill w (id' (data (nodes c ! current))) signal_type)))
        else Some (Inr (r, w)))"
proof (induction p arbitrary: k rule: less_induct)
  case (less p)
  from less.prems(2) obtain k' where k: "k = Suc k'" by (cases k) auto
  show ?case
  proof (cases "parent (nodes c ! p)")
    case None
    then show ?thesis by (cases k') (simp_all add: k Let_def ancestor_walk_Some)
  next
    case (Some q)
    from parents_okD(1)[OF par less.prems(1) Some] have qp: "q < p" .
    with less.prems have "q < length (nodes c)" "q < k'" by (simp_all add: k)
    from less.IH[OF qp this] Some show ?thesis by (simp add: k Let_def ancestor_walk_Some)
  qed
qed

lemma signal_loop_eq:
  assumes par: "parents_ok c"
  shows "\<forall>j\<in>set js. j < length (nodes c) \<Longrightarrow> length (result_ids r) \<le> RESULT_CAPACITY \<Longrightarrow>
     signal_loop c pid signal_type js (r, w) =
       (if length (result_ids r) + length (filter (proper_descendant c pid) js) \<le> RESULT_CAPACITY
        then Some (Inr
          (r\<lparr>result_ids := result_ids r @
                map (\<lambda>j. id' (data (nodes c ! j))) (filter (proper_descendant c pid) js)\<rparr>,
           w\<lparr>signals := signals w @
                map (\<lambda>j. (id' (data (nodes c ! j)), signal_type))
                  (filter (proper_descendant c pid) js)\<rparr>))
        else Some (Inl BufferOverflow))"
proof (induction js arbitrary: r w)
  case Nil
  then show ?case by simp
next
  case (Cons j js)
  then have j: "j < length (nodes c)" and js: "\<forall>j\<in>set js. j < length (nodes c)" by simp_all
  have walk: "ancestor_walk c pid signal_type j (parent (nodes c ! j)) (r, w) =
       (if proper_descendant c pid j
        then (case store_id r (id' (data (nodes c ! j))) of
                Inl f \<Rightarrow> Some (Inl f)
              | Inr r1 \<Rightarrow> Some (Inr (r1, kill w (id' (data (nodes c ! j))) signal_type)))
        else Some (Inr (r, w)))"
  proof (cases "parent (nodes c ! j)")
    case None
    then show ?thesis
      by (cases "length (nodes c)") (simp_all add: proper_descendant_def)
  next
    case (Some p)
    from parents_okD(1)[OF par j Some] j have "p < length (nodes c)" by simp
    from ancestor_walk_eq[OF par this this, of pid signal_type j r w] Some
    show ?thesis by (simp add: proper_descendant_def)
  qed
  show ?case
  proof (cases "proper_descendant c pid j")
    case False
    with walk Cons.IH[OF js Cons.prems(2), of w] show ?thesis by simp
  next
    case True
    show ?thesis
    proof (cases "length (result_ids r) < RESULT_CAPACITY")
      case False
      with True walk show ?thesis by (simp add: store_id_def)
    next
      case room: True
      let ?r1 = "r\<lparr>result_ids := result_ids r @ [id' (data (nodes c ! j))]\<rparr>"
      have "length (result_ids ?r1) \<le> RESULT_CAPACITY" using room by simp
      from Cons.IH[OF js this, of "kill w (id' (data (nodes c ! j))) signal_type"] True walk room
      show ?thesis by (simp add: store_id_def kill_def)
    qed
  qed
qed

lemma signal_all_descendants_eq:
  assumes "tree_ok c" "find_node_by_pid c pid \<noteq> None"
  shows "signal_all_descendants c pid signal_type w =
     (if length (filter (proper_descendant c pid) [0..<length (nodes c)]) \<le> RESULT_CAPACITY
      then Some (Inr
        (\<lparr>result_ids =
             map (\<lambda>j. id' (data (nodes c ! j)))
               (filter (proper_descendant c pid) [0..<length (nodes c)]),
           empty_message = None\<rparr>,
         w\<lparr>signals := signals w @
              map (\<lambda>j. (id' (data (nodes c ! j)), signal_type))
                (filter (proper_descendant c pid) [0..<length (nodes c)])\<rparr>))
      else Some (Inl BufferOverflow))"
proof -
  have par: "parents_ok c" using assms(1) by (simp add: tree_ok_def)
  from assms(2) obtain t where t: "find_node_by_pid c pid = Some t" by auto
  show ?thesis
    using t signal_loop_eq[OF par, of "[0..<length (nodes c)]" "init_result None" pid signal_type w]
    by (simp add: signal_all_descendants_def init_result_def)
qed

lemma collect_indirect_loop_done [simp, code]:
  "collect_indirect_loop c [] [] r = Some (Inr r)"
  by (subst collect_indirect_loop.simps) simp

lemma collect_indirect_loop_outer [simp, code]:
  "collect_indirect_loop c [] (child # outer') r =
     collect_indirect_loop c (children (nodes c ! child)) outer' r"
  by (subst collect_indirect_loop.simps) simp

lemma collect_indirect_loop_inner [simp, code]:
  "collect_indirect_loop c (g # inner') outer r =
     obind (Some (store_id r (id' (data (nodes c ! g)))))
       (\<lambda>r1. obind (collect_indirect_loop c [] (children (nodes c ! g)) r1)
          (\<lambda>r2. collect_indirect_loop c inner' outer r2))"
  by (subst collect_indirect_loop.simps) simp

lemma get_direct_descendants_eq:
  "find_node_by_pid c pid = Some node \<Longrightarrow>
   get_direct_descendants c pid =
     (if length (children (nodes c ! node)) \<le> 1000
      then Some (Inr \<lparr>result_ids = map (\<lambda>child. id' (data (nodes c ! child)))
                                     (children (nodes c ! node)),
                       empty_message = Some ''No direct descendants''\<rparr>)
      else Some (Inl BufferOverflow))"
  using store_all_eq[of "init_result (Some ''No direct descendants'')"
      "map (\<lambda>child. id' (data (nodes c ! child))) (children (nodes c ! node))"]
  by (simp add: get_direct_descendants_def init_result_def RESULT_CAPACITY_def)

subsection \<open>A process with many children\<close>

lemma discover_loop_pids_grow: "pids c \<subseteq> pids (discover_loop snap c pp es)"
  by (induction snap c pp es rule: discover_loop.induct)
     (simp_all add: pids_insert_linked split: option.splits, blast)

lemma discover_loop_finds_children:
  "pid \<in> set es \<Longrightarrow> 0 < pid \<Longrightarrow> fetch_process_data snap pid = Some pd \<Longrightarrow>
   parent_id pd = pp \<Longrightarrow> pid \<in> pids (discover_loop snap c pp es)"
proof (induction snap c pp es rule: discover_loop.induct)
  case (1 snap c parent_pid)
  then show ?case by simp
next
  case (2 snap c parent_pid e rest)
  show ?case
  proof (cases "pid = e")
    case True
    show ?thesis
    proof (cases "find_node_by_pid c e \<noteq> None")
      case found: True
      then have "e \<in> pids c" by (simp add: find_node_by_pid_None)
      with discover_loop_pids_grow[of c snap parent_pid "e # rest"] True show ?thesis by auto
    next
      case False
      let ?c2 = "insert_linked c pd parent_pid"
      let ?c3 = "discover_loop snap ?c2 e (entries snap)"
      have "e \<in> pids ?c2" using fetch_id[of snap e pd] "2.prems" True
        by (simp add: pids_insert_linked)
      with discover_loop_pids_grow[of ?c2 snap e "entries snap"]
        discover_loop_pids_grow[of ?c3 snap parent_pid rest]
      have "e \<in> pids (discover_loop snap ?c3 parent_pid rest)" by blast
      with "2.prems" True False show ?thesis by simp
    qed
  next
    case False
    with "2.prems"(1) have r: "pid \<in> set rest" by simp
    note p = "2.prems"(2-4)
    show ?thesis
    proof (cases "0 < e")
      case neg: False
      with "2.IH"(6)[OF neg r p] show ?thesis by simp
    next
      case pos: True
      show ?thesis
      proof (cases "fetch_process_data snap e")
        case None
        with "2.IH"(1)[OF pos None r p] pos show ?thesis by simp
      next
        case (Some ed)
        show ?thesis
        proof (cases "parent_id ed = parent_pid")
          case diff: False
          with "2.IH"(5)[OF pos Some diff r p] pos Some show ?thesis by simp
        next
          case same: True
          show ?thesis
          proof (cases "find_node_by_pid c e \<noteq> None")
            case found: True
            with "2.IH"(2)[OF pos Some same found r p] pos Some same show ?thesis by simp
          next
            case new: False
            with "2.IH"(4)[OF pos Some same new r p] pos Some same show ?thesis by simp
          qed
        qed
      qed
    qed
  qed
qed

lemma map_data_insert_linked:
  "map data (nodes (insert_linked c pd pp)) = map data (nodes c) @ [pd]"
  by (simp add: insert_linked_def Let_def map_data_add_child add_to_collection_def create_node_def
      split: option.splits)

lemma discover_loop_data_ok:
  "data_ok snap c \<Longrightarrow> data_ok snap (discover_loop snap c pp es)"
proof (induction snap c pp es rule: discover_loop.induct)
  case (1 snap c parent_pid)
  then show ?case by simp
next
  case (2 snap c parent_pid e rest)
  show ?case
  proof (cases "0 < e \<and> (\<exists>pd. fetch_process_data snap e = Some pd \<and> parent_id pd = parent_pid)
                 \<and> find_node_by_pid c e = None")
    case True
    then obtain pd where pd: "0 < e" "fetch_process_data snap e = Some pd"
      "parent_id pd = parent_pid" "\<not> find_node_by_pid c e \<noteq> None" by auto
    have "data_ok snap (insert_linked c pd parent_pid)"
      using "2.prems" pd(2) fetch_id[OF pd(2)]
      unfolding data_ok_def map_data_insert_linked by auto
    from "2.IH"(4)[OF pd "2.IH"(3)[OF pd this]] pd show ?thesis by simp
  next
    case False
    then have "discover_loop snap c parent_pid (e # rest) = discover_loop snap c parent_pid rest"
      by (auto split: option.splits)
    moreover have "data_ok snap (discover_loop snap c parent_pid rest)"
      using False "2.IH"(1,2,5,6) "2.prems" by (cases "fetch_process_data snap e") force+
    ultimately show ?thesis by simp
  qed
qed


lemma star_fetch_root:
  "fetch_process_data (star_snapshot n) 1 = Some \<lparr>id' = 1, parent_id = 0, defunct_flag = False\<rparr>"
  by (simp add: fetch_process_data_def star_snapshot_def)

lemma star_fetch_child:
  "2 \<le> p \<Longrightarrow> p \<le> int n + 1 \<Longrightarrow>
   fetch_process_data (star_snapshot n) p = Some \<lparr>id' = p, parent_id = 1, defunct_flag = True\<rparr>"
  by (simp add: fetch_process_data_def star_snapshot_def)

lemma star_fetch_other:
  "fetch_process_data (star_snapshot n) p = Some d \<Longrightarrow> p \<noteq> 1 \<Longrightarrow>
   parent_id d = 1 \<and> defunct_flag d"
  by (auto simp: fetch_process_data_def star_snapshot_def split: if_splits)

lemma ids_distinct_nth:
  assumes "ids_distinct c" "i < length (nodes c)" "j < length (nodes c)"
    "id' (data (nodes c ! i)) = id' (data (nodes c ! j))"
  shows "i = j"
proof -
  let ?ids = "map (\<lambda>n. id' (data n)) (nodes c)"
  have "distinct ?ids" using assms(1) by (simp only: ids_distinct_def)
  moreover have "i < length ?ids" "j < length ?ids" using assms(2,3) by simp_all
  moreover have "?ids ! i = ?ids ! j" using assms(2,3,4) by (simp only: nth_map)
  ultimately show ?thesis by (simp only: nth_eq_iff_index_eq)
qed

lemma star_build:
  fixes n :: nat
  defines "c \<equiv> build_process_hierarchy (star_snapshot n) init_collection 1"
  shows "find_node_by_pid c 1 = Some 0"
    and "n < length (nodes c)"
    and "\<And>j. 0 < j \<Longrightarrow> j < length (nodes c) \<Longrightarrow>
           parent (nodes c ! j) = Some 0 \<and> defunct_flag (data (nodes c ! j))"
    and "children (nodes c ! 0) = [1..<length (nodes c)]"
proof -
  let ?S = "star_snapshot n"
  let ?start = "(add_to_collection init_collection
                  (create_node 1 (parent_id \<lparr>id' = 1, parent_id = 0, defunct_flag = False\<rparr>)
                     (defunct_flag \<lparr>id' = 1, parent_id = 0, defunct_flag = False\<rparr>)))
                \<lparr>root := Some 0\<rparr>"
  have st: "status ?S 1 \<noteq> None" by (simp add: star_snapshot_def)
  have ok: "tree_ok c" unfolding c_def by (rule build_tree_ok)
  then have dis: "ids_distinct c" and par: "parents_ok c" and chi: "children_ok c"
    by (simp_all add: tree_ok_def)
  have r: "root c = Some 0" unfolding c_def using st by (simp add: build_root)
  have len0: "0 < length (nodes c)"
    using r ok by (auto simp: tree_ok_def root_ok_def split: if_splits)
  have id0: "id' (data (nodes c ! 0)) = 1" unfolding c_def by (rule build_root_id[OF st])
  from find_node_by_pid_distinct[OF dis len0] id0
  show f: "find_node_by_pid c 1 = Some 0" by simp
  have c: "c = discover_loop ?S ?start 1 (entries ?S)"
    unfolding c_def
    by (simp add: build_eq_build_without_reconciliation build_without_reconciliation_def
        discover_children_def star_fetch_root)
       (simp add: init_collection_def)
  have "int ` {1..<n + 2} \<subseteq> pids c"
  proof
    fix p assume "p \<in> int ` {1..<n + 2}"
    then obtain k where k: "p = int k" "1 \<le> k" "k < n + 2" by auto
    show "p \<in> pids c"
    proof (cases "k = 1")
      case True
      have "1 \<in> pids ?start"
        by (simp add: pids_def add_to_collection_def init_collection_def create_node_def)
      with discover_loop_pids_grow[of ?start ?S 1 "entries ?S"]
      have "1 \<in> pids (discover_loop ?S ?start 1 (entries ?S))" by (rule subsetD)
      with True k show ?thesis by (simp only: c) simp
    next
      case False
      with k have "2 \<le> p" "p \<le> int n + 1" by simp_all
      from star_fetch_child[OF this] have fp: "fetch_process_data ?S p =
          Some \<lparr>id' = p, parent_id = 1, defunct_flag = True\<rparr>" .
      have "k \<in> {1..<n + 2}" using k by simp
      then have "int k \<in> int ` {1..<n + 2}" by (rule imageI)
      then have "p \<in> set (entries ?S)"
        by (simp only: k(1) star_snapshot_def snapshot.select_convs set_map set_upt)
      moreover have "0 < p" using \<open>2 \<le> p\<close> by simp
      moreover have "parent_id \<lparr>id' = p, parent_id = 1, defunct_flag = True\<rparr> = 1" by simp
      ultimately have "p \<in> pids (discover_loop ?S ?start 1 (entries ?S))"
        using fp by (intro discover_loop_finds_children)
      then show ?thesis by (simp only: c)
    qed
  qed
  then have "card (int ` {1..<n + 2}) \<le> card (pids c)"
    by (intro card_mono) (simp_all add: pids_def)
  moreover have "card (int ` {1..<n + 2}) = n + 1"
  proof -
    have "inj_on int {1..<n + 2}" by (rule inj_onI) (rule of_nat_eq_iff[THEN iffD1])
    then have "card (int ` {1..<n + 2}) = card {1..<n + 2}" by (rule card_image)
    then show ?thesis by simp
  qed
  moreover have "card (pids c) = length (nodes c)"
    using dis by (simp add: ids_distinct_def pids_def distinct_card del: set_map)
  ultimately show "n < length (nodes c)" by simp
  have "data_ok ?S ?start"
    by (simp add: data_ok_def add_to_collection_def init_collection_def create_node_def
        star_fetch_root)
  then have "data_ok ?S (discover_loop ?S ?start 1 (entries ?S))" by (rule discover_loop_data_ok)
  then have dok: "data_ok ?S c" by (simp only: c)
  show pj: "parent (nodes c ! j) = Some 0 \<and> defunct_flag (data (nodes c ! j))"
    if j: "0 < j" "j < length (nodes c)" for j
  proof -
    have "data (nodes c ! j) \<in> set (map data (nodes c))" using j(2) by simp
    with dok have fd: "fetch_process_data ?S (id' (data (nodes c ! j))) = Some (data (nodes c ! j))"
      unfolding data_ok_def by blast
    have "id' (data (nodes c ! j)) \<noteq> 1"
      using ids_distinct_nth[OF dis j(2) len0] id0 j(1) by auto
    from star_fetch_other[OF fd this]
    have pid: "parent_id (data (nodes c ! j)) = 1" and z: "defunct_flag (data (nodes c ! j))"
      by simp_all
    from parents_ok_None[OF par j(2)] j(1) obtain p where p: "parent (nodes c ! j) = Some p"
      by auto
    from parents_okD[OF par j(2) p] pid id0 j(2)
    have "p < length (nodes c)" "id' (data (nodes c ! p)) = id' (data (nodes c ! 0))" by simp_all
    from ids_distinct_nth[OF dis this(1) len0 this(2)] p z show ?thesis by simp
  qed
  have "children (nodes c ! 0) =
          filter (\<lambda>j. parent (nodes c ! j) = Some 0) [Suc 0..<length (nodes c)]"
    by (rule children_from[OF par chi len0])
  also have "\<dots> = [Suc 0..<length (nodes c)]"
    using pj by (simp add: filter_id_conv)
  finally show "children (nodes c ! 0) = [1..<length (nodes c)]" by simp
qed

lemma star_zombies:
  "get_defunct_descendants (build_process_hierarchy (star_snapshot n) init_collection 1) 1 =
     Some (store_all (init_result (Some ''No descendant zombie process/es''))
        (zombie_ids (build_process_hierarchy (star_snapshot n) init_collection 1) (Suc 0)
           (length (nodes (build_process_hierarchy (star_snapshot n) init_collection 1)))))"
  and star_zombies_length:
  "n \<le> length (zombie_ids (build_process_hierarchy (star_snapshot n) init_collection 1) (Suc 0)
           (length (nodes (build_process_hierarchy (star_snapshot n) init_collection 1))))"
proof -
  let ?c = "build_process_hierarchy (star_snapshot n) init_collection 1"
  have ok: "tree_ok ?c" by (rule build_tree_ok)
  then have par: "parents_ok ?c" by (simp add: tree_ok_def)
  have n: "0 < length (nodes ?c)" by (rule le_less_trans[OF le0 star_build(2)])
  from get_defunct_descendants_ok[OF ok star_build(1)] subtree_end_root[OF par n]
  show "get_defunct_descendants ?c 1 =
     Some (store_all (init_result (Some ''No descendant zombie process/es''))
        (zombie_ids ?c (Suc 0) (length (nodes ?c))))" by simp
  have "filter (\<lambda>j. defunct_flag (data (nodes ?c ! j))) [Suc 0..<length (nodes ?c)] =
          [Suc 0..<length (nodes ?c)]"
    using star_build(3)[of _ n] by (simp add: filter_id_conv)
  then have "length (zombie_ids ?c (Suc 0) (length (nodes ?c))) = length (nodes ?c) - 1"
    by (simp add: zombie_ids_def)
  with star_build(2)[of n] show "n \<le> length (zombie_ids ?c (Suc 0) (length (nodes ?c)))"
    by simp
qed


subsection \<open>The rows the operations collect\<close>

lemma collected_eq: "Some (store_all (init_result msg) row) = collected msg row"
  using store_all_eq[of "init_result msg" row]
  by (simp add: collected_def init_result_def RESULT_CAPACITY_def)

lemma child_bounds:
  assumes "parents_ok c" "children_ok c" "i < length (nodes c)" "j \<in> set (children (nodes c ! i))"
  shows "i < j" and "j < length (nodes c)"
  using assms(4) unfolding children_from[OF assms(1-3)] by auto

lemma indirect_inner:
  assumes H: "\<And>g r. g \<in> set inner \<Longrightarrow>
               collect_indirect_loop c [] (children (nodes c ! g)) r =
                 Some (store_all r (indirect_row c k g))"
    and cont: "\<And>r. collect_indirect_loop c [] outer r = Some (store_all r R)"
  shows "collect_indirect_loop c inner outer r =
           Some (store_all r
             (concat (map (\<lambda>g. id' (data (nodes c ! g)) # indirect_row c k g) inner) @ R))"
  using H
proof (induction inner arbitrary: r)
  case Nil
  show ?case by (simp add: cont)
next
  case (Cons g inner')
  have rest: "collect_indirect_loop c inner' outer r2 =
           Some (store_all r2
             (concat (map (\<lambda>g. id' (data (nodes c ! g)) # indirect_row c k g) inner') @ R))" for r2
    by (rule Cons.IH) (rule Cons.prems, simp)
  have kids: "collect_indirect_loop c [] (children (nodes c ! g)) r1 =
                 Some (store_all r1 (indirect_row c k g))" for r1
    by (rule Cons.prems) simp
  have "collect_indirect_loop c (g # inner') outer r =
          obind (Some (store_all r [id' (data (nodes c ! g))]))
            (\<lambda>r1. obind (Some (store_all r1 (indirect_row c k g)))
               (\<lambda>r2. Some (store_all r2
                  (concat (map (\<lambda>g. id' (data (nodes c ! g)) # indirect_row c k g) inner') @ R))))"
    unfolding collect_indirect_loop_inner kids rest store_all_single ..
  also have "\<dots> = Some (store_all r
             (concat (map (\<lambda>g. id' (data (nodes c ! g)) # indirect_row c k g) (g # inner')) @ R))"
    unfolding obind_store_all by simp
  finally show ?case .
qed

lemma indirect_outer:
  assumes H: "\<And>child g r. child \<in> set outer \<Longrightarrow> g \<in> set (children (nodes c ! child)) \<Longrightarrow>
               collect_indirect_loop c [] (children (nodes c ! g)) r =
                 Some (store_all r (indirect_row c k g))"
  shows "collect_indirect_loop c [] outer r =
           Some (store_all r
             (concat (map (\<lambda>child. concat (map (\<lambda>g. id' (data (nodes c ! g)) # indirect_row c k g)
                                               (children (nodes c ! child))))
                        outer)))"
  using H
proof (induction outer arbitrary: r)
  case Nil
  show ?case by simp
next
  case (Cons child outer')
  have cont: "collect_indirect_loop c [] outer' r' =
           Some (store_all r'
             (concat (map (\<lambda>child. concat (map (\<lambda>g. id' (data (nodes c ! g)) # indirect_row c k g)
                                               (children (nodes c ! child))))
                        outer')))" for r'
    by (rule Cons.IH) (rule Cons.prems, simp_all)
  have "collect_indirect_loop c (children (nodes c ! child)) outer' r =
          Some (store_all r
             (concat (map (\<lambda>g. id' (data (nodes c ! g)) # indirect_row c k g)
                        (children (nodes c ! child)))
              @ concat (map (\<lambda>child. concat (map (\<lambda>g. id' (data (nodes c ! g)) # indirect_row c k g)
                                               (children (nodes c ! child))))
                        outer')))"
    by (rule indirect_inner[OF _ cont]) (rule Cons.prems, simp_all)
  then show ?case by simp
qed

lemma collect_indirect_row:
  assumes par: "parents_ok c" and chi: "children_ok c"
  shows "node < length (nodes c) \<Longrightarrow> length (nodes c) - node \<le> k \<Longrightarrow>
     collect_indirect_loop c [] (children (nodes c ! node)) r =
       Some (store_all r (indirect_row c k node))"
proof (induction "length (nodes c) - node" arbitrary: node k r rule: less_induct)
  case less
  from less.prems obtain k' where k: "k = Suc k'" by (cases k) auto
  have "collect_indirect_loop c [] (children (nodes c ! node)) r =
           Some (store_all r
             (concat (map (\<lambda>child. concat (map (\<lambda>g. id' (data (nodes c ! g)) # indirect_row c k' g)
                                               (children (nodes c ! child))))
                        (children (nodes c ! node)))))"
  proof (rule indirect_outer)
    fix child g r'
    assume ch: "child \<in> set (children (nodes c ! node))"
      and g: "g \<in> set (children (nodes c ! child))"
    from child_bounds[OF par chi less.prems(1) ch] have c1: "node < child" "child < length (nodes c)"
      by simp_all
    from child_bounds[OF par chi c1(2) g] have g1: "child < g" "g < length (nodes c)" by simp_all
    show "collect_indirect_loop c [] (children (nodes c ! g)) r' =
            Some (store_all r' (indirect_row c k' g))"
    proof (rule less.hyps)
      show "length (nodes c) - g < length (nodes c) - node" using c1 g1 by linarith
      show "g < length (nodes c)" by (rule g1(2))
      show "length (nodes c) - g \<le> k'" using c1 g1 less.prems(2) k by linarith
    qed
  qed
  then show ?case by (simp add: k)
qed

lemma get_indirect_descendants_ok:
  assumes ok: "tree_ok c" and f: "find_node_by_pid c pid = Some t"
  shows "get_indirect_descendants c pid =
           Some (store_all (init_result (Some ''No non-direct descendants''))
                   (indirect_row c (length (nodes c)) t))"
proof -
  from ok have par: "parents_ok c" and chi: "children_ok c" by (simp_all add: tree_ok_def)
  have t: "t < length (nodes c)" using f by (simp add: find_node_by_pid_Some_iff)
  from collect_indirect_row[OF par chi t, of "length (nodes c)"] f show ?thesis
    by (simp add: get_indirect_descendants_def collect_indirect_descendants_def)
qed

lemma kill_zombie_parents_eq:
  assumes ok: "tree_ok c" and f: "find_node_by_pid c pid = Some t"
  shows "kill_zombie_parents c pid w =
     (if length (zombie_ids c (Suc t) (subtree_end c t)) \<le> 1000
      then Some (Inr
        (\<lparr>result_ids = concat (map (signalled_parent c) (zombie_ids c (Suc t) (subtree_end c t))),
           empty_message = None\<rparr>,
         w\<lparr>signals := signals w @
              map (\<lambda>p. (p, SIGKILL))
                (concat (map (signalled_parent c) (zombie_ids c (Suc t) (subtree_end c t))))\<rparr>))
      else Some (Inl BufferOverflow))"
proof -
  let ?Z = "zombie_ids c (Suc t) (subtree_end c t)"
  let ?P = "concat (map (signalled_parent c) ?Z)"
  let ?init = "init_result (Some ''No descendant zombie process/es'')"
  have g: "get_defunct_descendants c pid = Some (store_all ?init ?Z)"
    by (rule get_defunct_descendants_ok[OF ok f])
  have s: "store_all ?init ?Z =
             (if length ?Z \<le> RESULT_CAPACITY then Inr (?init\<lparr>result_ids := ?Z\<rparr>)
              else Inl BufferOverflow)"
    using store_all_eq[of ?init ?Z] by (simp add: init_result_def)
  show ?thesis
  proof (cases "length ?Z \<le> RESULT_CAPACITY")
    case False
    then show ?thesis by (simp add: kill_zombie_parents_def g s RESULT_CAPACITY_def)
  next
    case fit: True
    have "length ?P \<le> length ?Z"
    proof -
      have "length (concat (map (signalled_parent c) zs)) \<le> length zs" for zs
        by (induction zs) (auto simp: signalled_parent_def split: option.splits)
      then show ?thesis .
    qed
    with fit have "length (result_ids (init_result None)) + length ?P \<le> RESULT_CAPACITY"
      by (simp add: init_result_def)
    from kill_parents_loop_eq[OF this, of w]
    have "kill_parents_loop c ?Z (init_result None, w) =
            Some (Inr (\<lparr>result_ids = ?P, empty_message = None\<rparr>,
                       w\<lparr>signals := signals w @ map (\<lambda>p. (p, SIGKILL)) ?P\<rparr>))"
      by (simp add: init_result_def)
    moreover have "kill_zombie_parents c pid w = kill_parents_loop c ?Z (init_result None, w)"
      using fit by (simp add: kill_zombie_parents_def g s)
    ultimately show ?thesis using fit by (simp add: RESULT_CAPACITY_def)
  qed
qed

lemma sibling_rows:
  assumes f: "find_node_by_pid c pid = Some t"
  shows "get_siblings c pid =
           collected (Some ''No sibling/s'')
             (case parent (nodes c ! t) of
                Some p \<Rightarrow> map (\<lambda>s. id' (data (nodes c ! s)))
                            (filter (\<lambda>s. id' (data (nodes c ! s)) \<noteq> pid) (children (nodes c ! p)))
              | None \<Rightarrow> [])"
    and "get_defunct_siblings c pid =
           collected (Some ''No defunct sibling/s'')
             (case parent (nodes c ! t) of
                Some p \<Rightarrow> map (\<lambda>s. id' (data (nodes c ! s)))
                            (filter (\<lambda>s. id' (data (nodes c ! s)) \<noteq> pid
                                         \<and> defunct_flag (data (nodes c ! s)))
                               (children (nodes c ! p)))
              | None \<Rightarrow> [])"
    and "get_grandchildren c pid =
           collected (Some ''No grandchildren'')
             (concat (map (\<lambda>child. map (\<lambda>g. id' (data (nodes c ! g))) (children (nodes c ! child)))
                        (children (nodes c ! t))))"
    and "get_direct_descendants c pid =
           collected (Some ''No direct descendants'')
             (map (\<lambda>child. id' (data (nodes c ! child))) (children (nodes c ! t)))"
proof -
  show "get_siblings c pid =
           collected (Some ''No sibling/s'')
             (case parent (nodes c ! t) of
                Some p \<Rightarrow> map (\<lambda>s. id' (data (nodes c ! s)))
                            (filter (\<lambda>s. id' (data (nodes c ! s)) \<noteq> pid) (children (nodes c ! p)))
              | None \<Rightarrow> [])"
  proof (cases "parent (nodes c ! t)")
    case None
    then show ?thesis using f by (simp add: get_siblings_def collected_def init_result_def)
  next
    case (Some p)
    then show ?thesis using f by (simp add: get_siblings_def collected_eq)
  qed
  show "get_defunct_siblings c pid =
           collected (Some ''No defunct sibling/s'')
             (case parent (nodes c ! t) of
                Some p \<Rightarrow> map (\<lambda>s. id' (data (nodes c ! s)))
                            (filter (\<lambda>s. id' (data (nodes c ! s)) \<noteq> pid
                                         \<and> defunct_flag (data (nodes c ! s)))
                               (children (nodes c ! p)))
              | None \<Rightarrow> [])"
  proof (cases "parent (nodes c ! t)")
    case None
    then show ?thesis using f by (simp add: get_defunct_siblings_def collected_def init_result_def)
  next
    case (Some p)
    then show ?thesis using f by (simp add: get_defunct_siblings_def collected_eq)
  qed
  show "get_grandchildren c pid =
           collected (Some ''No grandchildren'')
             (concat (map (\<lambda>child. map (\<lambda>g. id' (data (nodes c ! g))) (children (nodes c ! child)))
                        (children (nodes c ! t))))"
    using f by (simp add: get_grandchildren_def collected_eq)
  show "get_direct_descendants c pid =
           collected (Some ''No direct descendants'')
             (map (\<lambda>child. id' (data (nodes c ! child))) (children (nodes c ! t)))"
    using f by (simp add: get_direct_descendants_def collected_eq)
qed

lemma star_descendants:
  "n \<le> length (filter (proper_descendant (build_process_hierarchy (star_snapshot n) init_collection 1) 1)
                 [0..<length (nodes (build_process_hierarchy (star_snapshot n) init_collection 1))])"
proof -
  let ?c = "build_process_hierarchy (star_snapshot n) init_collection 1"
  let ?n = "length (nodes ?c)"
  have ok: "tree_ok ?c" by (rule build_tree_ok)
  have len: "n < ?n" by (rule star_build(2))
  obtain m where m: "?n = Suc m" using len by (cases ?n) auto
  have id0: "id' (data (nodes ?c ! 0)) = 1"
    using star_build(1)[of n] by (simp add: find_node_by_pid_Some_iff)
  have all: "proper_descendant ?c 1 j" if "j \<in> set [1..<?n]" for j
  proof -
    from that have j: "0 < j" "j < ?n" by simp_all
    from star_build(3)[OF j] have "parent (nodes ?c ! j) = Some 0" by simp
    then show ?thesis by (simp add: proper_descendant_def m id0)
  qed
  have "filter (proper_descendant ?c 1) [1..<?n] = [1..<?n]"
    by (rule filter_True) (use all in blast)
  then have "length (filter (proper_descendant ?c 1) [1..<?n]) = ?n - 1" by simp
  moreover have "[0..<?n] = [0] @ [1..<?n]" unfolding m by (simp add: upt_conv_Cons del: upt_Suc)
  ultimately have "?n - 1 \<le> length (filter (proper_descendant ?c 1) [0..<?n])"
    by (simp del: upt_Suc)
  with len show ?thesis by linarith
qed


section \<open>The claims\<close>

text \<open>
  C3. The builder terminates on every snapshot (\<open>discover_loop\<close> is a total function, by
  the termination proof above), whatever the parent ids say, and what it builds is a
  finite rooted tree without cycles: it has at most one node more than the snapshot has
  entries, and from any node of it, following parent links reaches the root, which has
  no parent, in at most as many steps as the index of the node.
\<close>

theorem built_tree_acyclic:
  "i < length (nodes (build_process_hierarchy snap init_collection root_pid)) \<Longrightarrow>
     (\<exists>k\<le>i. follow_parent (build_process_hierarchy snap init_collection root_pid) k i = Some 0)
     \<and> parent (nodes (build_process_hierarchy snap init_collection root_pid) ! 0) = None
     \<and> root (build_process_hierarchy snap init_collection root_pid) = Some 0
     \<and> length (nodes (build_process_hierarchy snap init_collection root_pid))
         \<le> Suc (length (entries snap))"
proof -
  let ?c = "build_process_hierarchy snap init_collection root_pid"
  assume i: "i < length (nodes ?c)"
  have ok: "tree_ok ?c" by (rule build_tree_ok)
  then have par: "parents_ok ?c" and r: "root_ok ?c" by (simp_all add: tree_ok_def)
  have 0: "0 < length (nodes ?c)" by (rule le_less_trans[OF le0 i])
  from follow_parent_root[OF par i] parents_ok_None[OF par 0] root_ok_Some[OF r i]
    build_size[of snap root_pid]
  show ?thesis by simp
qed

theorem built_tree_acyclic_witness:
  "2 < length (nodes (build_process_hierarchy cyclic_snapshot init_collection 7))
   \<and> (\<exists>k\<le>2. follow_parent (build_process_hierarchy cyclic_snapshot init_collection 7) k 2 = Some 0)
   \<and> parent (nodes (build_process_hierarchy cyclic_snapshot init_collection 7) ! 0) = None
   \<and> root (build_process_hierarchy cyclic_snapshot init_collection 7) = Some 0
   \<and> length (nodes (build_process_hierarchy cyclic_snapshot init_collection 7))
       \<le> Suc (length (entries cyclic_snapshot))"
proof -
  have h: "2 < length (nodes (build_process_hierarchy cyclic_snapshot init_collection 7))"
    by code_simp
  from built_tree_acyclic[OF h] h show ?thesis by blast
qed

text \<open>
  C4. In a built tree every node other than the root has a parent link; the node it
  points to carries the id the node names as its parent id, and has the node exactly
  once among its children; no other node has it among its children.
\<close>

theorem built_tree_links_agree:
  assumes "i < length (nodes (build_process_hierarchy snap init_collection root_pid))"
    and "root (build_process_hierarchy snap init_collection root_pid) \<noteq> Some i"
  shows "\<exists>p<length (nodes (build_process_hierarchy snap init_collection root_pid)).
           parent (nodes (build_process_hierarchy snap init_collection root_pid) ! i) = Some p
           \<and> id' (data (nodes (build_process_hierarchy snap init_collection root_pid) ! p)) =
               parent_id (data (nodes (build_process_hierarchy snap init_collection root_pid) ! i))
           \<and> count_list (children (nodes (build_process_hierarchy snap init_collection root_pid) ! p)) i = 1
           \<and> (\<forall>q<length (nodes (build_process_hierarchy snap init_collection root_pid)). q \<noteq> p \<longrightarrow>
                 count_list (children (nodes (build_process_hierarchy snap init_collection root_pid) ! q)) i = 0)"
proof -
  let ?c = "build_process_hierarchy snap init_collection root_pid"
  have ok: "tree_ok ?c" by (rule build_tree_ok)
  then have par: "parents_ok ?c" and r: "root_ok ?c" and chi: "children_ok ?c"
    by (simp_all add: tree_ok_def)
  from assms root_ok_Some[OF r assms(1)] have "i \<noteq> 0" by auto
  with parents_ok_None[OF par assms(1)] obtain p where p: "parent (nodes ?c ! i) = Some p"
    by auto
  from parents_okD[OF par assms(1) p]
  have pi: "p < i" and idp: "id' (data (nodes ?c ! p)) = parent_id (data (nodes ?c ! i))"
    by simp_all
  from pi assms(1) have pn: "p < length (nodes ?c)" by simp
  have cnt: "count_list (children (nodes ?c ! q)) i = (if parent (nodes ?c ! i) = Some q then 1 else 0)"
    if "q < length (nodes ?c)" for q
    using chi that assms(1) by (simp add: children_ok_def count_list_filter_upt)
  show ?thesis
    using pn p idp cnt by (intro exI[of _ p]) auto
qed

theorem built_tree_links_agree_witness:
  "2 < length (nodes (build_process_hierarchy example_snapshot init_collection 1))
   \<and> root (build_process_hierarchy example_snapshot init_collection 1) \<noteq> Some 2
   \<and> (\<exists>p<length (nodes (build_process_hierarchy example_snapshot init_collection 1)).
           parent (nodes (build_process_hierarchy example_snapshot init_collection 1) ! 2) = Some p
           \<and> id' (data (nodes (build_process_hierarchy example_snapshot init_collection 1) ! p)) =
               parent_id (data (nodes (build_process_hierarchy example_snapshot init_collection 1) ! 2))
           \<and> count_list (children (nodes (build_process_hierarchy example_snapshot init_collection 1) ! p)) 2 = 1)"
proof -
  have h1: "2 < length (nodes (build_process_hierarchy example_snapshot init_collection 1))"
    by code_simp
  have h2: "root (build_process_hierarchy example_snapshot init_collection 1) \<noteq> Some 2"
    by code_simp
  from built_tree_links_agree[OF h1 h2] h1 h2 show ?thesis by blast
qed


text \<open>
  C10. After the discovery, before the reconciliation loop runs, every node whose id is
  not the root id already has a parent link, and the loop changes nothing: the tree
  built with the loop is the tree built without it.
\<close>

theorem reconciliation_adds_no_link:
  "(\<forall>i<length (nodes (build_without_reconciliation snap init_collection root_pid)).
      id' (data (nodes (build_without_reconciliation snap init_collection root_pid) ! i)) \<noteq> root_pid
        \<longrightarrow> parent (nodes (build_without_reconciliation snap init_collection root_pid) ! i) \<noteq> None)
   \<and> build_process_hierarchy snap init_collection root_pid =
       build_without_reconciliation snap init_collection root_pid"
proof (cases "fetch_process_data snap root_pid")
  case None
  then show ?thesis
    by (simp add: build_eq_build_without_reconciliation build_without_reconciliation_absent)
       (simp add: init_collection_def)
next
  case (Some rd)
  let ?c1 = "build_without_reconciliation snap init_collection root_pid"
  note p = build_without_reconciliation_present[OF Some]
  have "parent (nodes ?c1 ! i) \<noteq> None"
    if "i < length (nodes ?c1)" "id' (data (nodes ?c1 ! i)) \<noteq> root_pid" for i
  proof -
    have "id' (data (nodes ?c1 ! 0)) = root_pid" using p(5) fetch_id[OF Some] by simp
    with that(2) have "i \<noteq> 0" by (intro notI) simp
    with parents_ok_None[of ?c1 i] p(1) that(1) show ?thesis by (simp add: tree_ok_def)
  qed
  then show ?thesis by (simp add: build_eq_build_without_reconciliation)
qed

theorem reconciliation_adds_no_link_witness:
  "2 < length (nodes (build_without_reconciliation example_snapshot init_collection 1))
   \<and> id' (data (nodes (build_without_reconciliation example_snapshot init_collection 1) ! 2)) \<noteq> 1
   \<and> parent (nodes (build_without_reconciliation example_snapshot init_collection 1) ! 2) \<noteq> None
   \<and> build_process_hierarchy example_snapshot init_collection 1 =
       build_without_reconciliation example_snapshot init_collection 1"
proof -
  have h1: "2 < length (nodes (build_without_reconciliation example_snapshot init_collection 1))"
    by code_simp
  have h2: "id' (data (nodes (build_without_reconciliation example_snapshot init_collection 1) ! 2)) \<noteq> 1"
    by code_simp
  from reconciliation_adds_no_link[of example_snapshot 1] h1 h2 show ?thesis by blast
qed


text \<open>
  C2, as amended. \<^verbatim>\<open>handle_kill_root\<close> signals only under \<^verbatim>\<open>if (collection->root)\<close>: on a
  built tree it sends the kill signal to the root process id when the root process was
  found, and sends nothing when the tree is empty; the id it is called with plays no
  part, and neither does the target argument of \<^verbatim>\<open>main\<close> under \<^verbatim>\<open>-rp\<close>. The
  counterexample is the claim as stated failing on an empty process table: no signal
  is sent to the root id 42 that was supplied.
\<close>

theorem kill_root_only_when_root_found:
  "handle_kill_root (build_process_hierarchy snap init_collection root_pid) pid w =
     Some (Inr (init_result None,
                if status snap root_pid = None then w else kill w root_pid SIGKILL))
   \<and> main snap prog (r # t # ''-rp'' # rest) w =
       Some (Inr (0, if status snap (atoi r) = None then w else kill w (atoi r) SIGKILL))"
  by (simp add: handle_kill_root_built main_def Let_def obind_def display_results_def init_result_def)

theorem kill_root_only_when_root_found_witness:
  "handle_kill_root (build_process_hierarchy example_snapshot init_collection 1) 4
       \<lparr>signals = [], stdout = []\<rparr> =
     Some (Inr (init_result None, \<lparr>signals = [(1, SIGKILL)], stdout = []\<rparr>))
   \<and> main example_snapshot ''tool'' [''1'', ''4'', ''-rp''] \<lparr>signals = [], stdout = []\<rparr> =
       Some (Inr (0, \<lparr>signals = [(1, SIGKILL)], stdout = []\<rparr>))
   \<and> main example_snapshot ''tool'' [''4294967297'', ''2'', ''-rp''] \<lparr>signals = [], stdout = []\<rparr> =
       Some (Inr (0, \<lparr>signals = [(1, SIGKILL)], stdout = []\<rparr>))"
proof -
  have a: "atoi ''1'' = 1" "atoi ''4294967297'' = 1" by code_simp+
  have s: "status example_snapshot 1 \<noteq> None" by (simp add: example_snapshot_def)
  from kill_root_only_when_root_found[of example_snapshot 1 4 "\<lparr>signals = [], stdout = []\<rparr>"
      "''tool''" "''1''" "''4''" "[]"]
    kill_root_only_when_root_found[of example_snapshot 1 4 "\<lparr>signals = [], stdout = []\<rparr>"
      "''tool''" "''4294967297''" "''2''" "[]"] a s
  show ?thesis by (simp add: kill_def)
qed

theorem kill_root_empty_tree_counterexample:
  "root (build_process_hierarchy no_process init_collection 42) = None
   \<and> handle_kill_root (build_process_hierarchy no_process init_collection 42) 42
        \<lparr>signals = [], stdout = []\<rparr> =
      Some (Inr (init_result None, \<lparr>signals = [], stdout = []\<rparr>))
   \<and> main no_process ''tool'' [''42'', ''42'', ''-rp''] \<lparr>signals = [], stdout = []\<rparr> =
      Some (Inr (0, \<lparr>signals = [], stdout = []\<rparr>))"
  by code_simp

text \<open>
  C8, as amended. With a flag of the registry other than \<^verbatim>\<open>-rp\<close> and a target that is
  not in the built tree, \<^verbatim>\<open>main\<close> prints that the process does not belong to the tree,
  and that is all it does: the handler is not called, no signal is sent, the exit status
  is 0. With \<^verbatim>\<open>-rp\<close> the target argument is not looked at, and the run sends the kill
  signal to the root pid when the root process was found, and does nothing when the
  built tree has no root. The root and target pids are the \<^verbatim>\<open>int\<close> values that \<^verbatim>\<open>atoi\<close>
  returns for the arguments. The counterexample is the last clause of the claim as
  stated failing: with \<^verbatim>\<open>-rp\<close> and the root pid 99, which is not a process of the
  snapshot, nothing is signalled.
\<close>

theorem main_checks_target:
  "(find_command_handler option \<noteq> None \<and> option \<noteq> ''-rp''
      \<and> find_node_by_pid (build_process_hierarchy snap init_collection (atoi r)) (atoi t) = None
    \<longrightarrow> main snap prog (r # t # option # rest) w =
          Some (Inr (0, printf w (OutNotInTree (atoi t) (atoi r)))))
   \<and> main snap prog (r # t # ''-rp'' # rest) w =
       Some (Inr (0, if status snap (atoi r) = None then w else kill w (atoi r) SIGKILL))"
  using build_root_id[of snap "atoi r"]
  by (auto simp: main_def Let_def obind_def handle_kill_root_def build_root display_results_def
      init_result_def split: option.splits)

theorem main_checks_target_witness:
  "find_command_handler ''-sk'' \<noteq> None \<and> ''-sk'' \<noteq> ''-rp''
   \<and> find_node_by_pid (build_process_hierarchy example_snapshot init_collection (atoi ''1''))
         (atoi ''99'') = None
   \<and> main example_snapshot ''tool'' [''1'', ''99'', ''-sk''] \<lparr>signals = [], stdout = []\<rparr> =
       Some (Inr (0, \<lparr>signals = [], stdout = [OutNotInTree 99 1]\<rparr>))
   \<and> main example_snapshot ''tool'' [''1'', ''99'', ''-rp''] \<lparr>signals = [], stdout = []\<rparr> =
       Some (Inr (0, \<lparr>signals = [(1, SIGKILL)], stdout = []\<rparr>))"
proof -
  let ?w = "\<lparr>signals = [], stdout = []\<rparr>"
  have h1: "find_command_handler ''-sk'' \<noteq> None"
    by (simp add: find_command_handler_def command_registry_def)
  have h2: "''-sk'' \<noteq> ''-rp''" by simp
  have h3: "find_node_by_pid (build_process_hierarchy example_snapshot init_collection (atoi ''1''))
         (atoi ''99'') = None" by code_simp
  have a: "atoi ''1'' = 1" "atoi ''99'' = 99" by code_simp+
  have s: "status example_snapshot 1 \<noteq> None" by (simp add: example_snapshot_def)
  note inst = main_checks_target[of "''-sk''" example_snapshot "''1''" "''99''" "''tool''" "[]" ?w]
  from inst h1 h2 h3
  have "main example_snapshot ''tool'' [''1'', ''99'', ''-sk''] ?w =
       Some (Inr (0, printf ?w (OutNotInTree (atoi ''99'') (atoi ''1''))))"
    by blast
  moreover from inst
  have "main example_snapshot ''tool'' [''1'', ''99'', ''-rp''] ?w =
       Some (Inr (0, if status example_snapshot (atoi ''1'') = None then ?w
                     else kill ?w (atoi ''1'') SIGKILL))"
    by blast
  ultimately show ?thesis using h1 h2 h3 a s by (simp add: printf_def kill_def)
qed

theorem rp_without_root_counterexample:
  "find_node_by_pid (build_process_hierarchy example_snapshot init_collection 99) 99 = None
   \<and> main example_snapshot ''tool'' [''99'', ''1'', ''-rp''] \<lparr>signals = [], stdout = []\<rparr> =
      Some (Inr (0, \<lparr>signals = [], stdout = []\<rparr>))"
  by code_simp


text \<open>
  C5. For a built tree with a root, \<^verbatim>\<open>get_defunct_descendants\<close> of the root writes a row
  of ids into a fresh result, and \<^verbatim>\<open>count_zombies\<close> is the length of that row, plus one
  if the root itself is defunct. So whenever it returns a result, \<^verbatim>\<open>count_zombies\<close> is
  the number of ids in that result, plus one if the root is defunct; and it does return
  a result whenever the tree has at most 1000 defunct nodes.
\<close>

theorem count_zombies_matches_defunct_descendants:
  assumes "status snap root_pid \<noteq> None"
  shows "root (build_process_hierarchy snap init_collection root_pid) = Some 0
    \<and> (\<exists>zs. get_defunct_descendants (build_process_hierarchy snap init_collection root_pid) root_pid
            = Some (store_all (init_result (Some ''No descendant zombie process/es'')) zs)
          \<and> count_zombies (build_process_hierarchy snap init_collection root_pid) =
            length zs +
            (if defunct_flag (data (nodes (build_process_hierarchy snap init_collection root_pid) ! 0))
             then 1 else 0))
    \<and> (\<forall>r. get_defunct_descendants (build_process_hierarchy snap init_collection root_pid) root_pid
            = Some (Inr r) \<longrightarrow>
          count_zombies (build_process_hierarchy snap init_collection root_pid) =
            length (result_ids r) +
            (if defunct_flag (data (nodes (build_process_hierarchy snap init_collection root_pid) ! 0))
             then 1 else 0))
    \<and> (count_zombies (build_process_hierarchy snap init_collection root_pid) \<le> RESULT_CAPACITY \<longrightarrow>
         (\<exists>r. get_defunct_descendants (build_process_hierarchy snap init_collection root_pid) root_pid
            = Some (Inr r)))"
proof -
  let ?c = "build_process_hierarchy snap init_collection root_pid"
  let ?zs = "zombie_ids ?c (Suc 0) (length (nodes ?c))"
  let ?init = "init_result (Some ''No descendant zombie process/es'')"
  have ok: "tree_ok ?c" by (rule build_tree_ok)
  then have par: "parents_ok ?c" and dis: "ids_distinct ?c" by (simp_all add: tree_ok_def)
  have r: "root ?c = Some 0" using assms by (simp add: build_root)
  have n: "0 < length (nodes ?c)"
    using r ok by (auto simp: tree_ok_def root_ok_def split: if_splits)
  have "find_node_by_pid ?c (id' (data (nodes ?c ! 0))) = Some 0"
    by (rule find_node_by_pid_distinct[OF dis n])
  then have f: "find_node_by_pid ?c root_pid = Some 0"
    using build_root_id[OF assms] by simp
  have g: "get_defunct_descendants ?c root_pid = Some (store_all ?init ?zs)"
    using get_defunct_descendants_ok[OF ok f] subtree_end_root[OF par n] by simp
  have s: "store_all ?init ?zs =
             (if length ?zs \<le> RESULT_CAPACITY then Inr (?init\<lparr>result_ids := ?zs\<rparr>)
              else Inl BufferOverflow)"
    using store_all_eq[of ?init ?zs] by (simp add: init_result_def)
  note cz = count_zombies_split[OF n]
  have "\<exists>zs. get_defunct_descendants ?c root_pid = Some (store_all ?init zs)
          \<and> count_zombies ?c =
              length zs + (if defunct_flag (data (nodes ?c ! 0)) then 1 else 0)"
    using g cz by blast
  moreover have "\<forall>r. get_defunct_descendants ?c root_pid = Some (Inr r) \<longrightarrow>
          count_zombies ?c =
            length (result_ids r) + (if defunct_flag (data (nodes ?c ! 0)) then 1 else 0)"
    using g s cz by (auto split: if_splits)
  moreover have "count_zombies ?c \<le> RESULT_CAPACITY \<longrightarrow>
         (\<exists>r. get_defunct_descendants ?c root_pid = Some (Inr r))"
    using g s cz by (auto split: if_splits)
  ultimately show ?thesis using r by blast
qed

theorem count_zombies_matches_defunct_descendants_witness:
  "status example_snapshot 1 \<noteq> None
   \<and> get_defunct_descendants (build_process_hierarchy example_snapshot init_collection 1) 1 =
       Some (Inr \<lparr>result_ids = [2, 4], empty_message = Some ''No descendant zombie process/es''\<rparr>)
   \<and> count_zombies (build_process_hierarchy example_snapshot init_collection 1) =
       length [2::int, 4] +
       (if defunct_flag (data (nodes (build_process_hierarchy example_snapshot init_collection 1) ! 0))
        then 1 else 0)"
proof -
  have h: "status example_snapshot 1 \<noteq> None" by (simp add: example_snapshot_def)
  have g: "get_defunct_descendants (build_process_hierarchy example_snapshot init_collection 1) 1 =
       Some (Inr \<lparr>result_ids = [2, 4], empty_message = Some ''No descendant zombie process/es''\<rparr>)"
    by code_simp
  from count_zombies_matches_defunct_descendants[OF h] g h show ?thesis by auto
qed


text \<open>
  C6. For a built tree and a target in it, \<^verbatim>\<open>get_defunct_descendants\<close> returns, and when
  it returns the zombie ids \<open>zs\<close>, each of them is the id of a defunct node of the
  tree, and \<^verbatim>\<open>kill_zombie_parents\<close> sends the kill signal to, and records, the parent id
  of each zombie of \<open>zs\<close> whose parent id is greater than 1, and nothing else: one
  entry per such zombie, in the order of \<open>zs\<close>, so a parent of several zombies is
  signalled and recorded once for each of them.
\<close>

theorem kill_zombie_parents_above_one:
  assumes "find_node_by_pid (build_process_hierarchy snap init_collection root_pid) pid \<noteq> None"
  shows "(\<exists>x. get_defunct_descendants (build_process_hierarchy snap init_collection root_pid) pid
             = Some x)
    \<and> (\<forall>zs. get_defunct_descendants (build_process_hierarchy snap init_collection root_pid) pid
             = Some (Inr zs) \<longrightarrow>
          (\<forall>z\<in>set (result_ids zs).
             \<exists>m. metadata_of (build_process_hierarchy snap init_collection root_pid) z = Some m
                \<and> id' m = z \<and> defunct_flag m)
          \<and> kill_zombie_parents (build_process_hierarchy snap init_collection root_pid) pid w =
              Some (Inr
                (\<lparr>result_ids =
                     filter (\<lambda>p. 1 < p)
                       (map (\<lambda>z. parent_id (the (metadata_of
                                 (build_process_hierarchy snap init_collection root_pid) z)))
                          (result_ids zs)),
                   empty_message = None\<rparr>,
                 w\<lparr>signals := signals w @
                      map (\<lambda>p. (p, SIGKILL))
                        (filter (\<lambda>p. 1 < p)
                           (map (\<lambda>z. parent_id (the (metadata_of
                                     (build_process_hierarchy snap init_collection root_pid) z)))
                              (result_ids zs)))\<rparr>)))"
proof -
  let ?c = "build_process_hierarchy snap init_collection root_pid"
  let ?init = "init_result (Some ''No descendant zombie process/es'')"
  from assms obtain t where t: "find_node_by_pid ?c pid = Some t" by auto
  have ok: "tree_ok ?c" by (rule build_tree_ok)
  then have dis: "ids_distinct ?c" by (simp add: tree_ok_def)
  have tn: "t < length (nodes ?c)" using t by (simp add: find_node_by_pid_Some_iff)
  let ?Z = "zombie_ids ?c (Suc t) (subtree_end ?c t)"
  have g: "get_defunct_descendants ?c pid = Some (store_all ?init ?Z)"
    by (rule get_defunct_descendants_ok[OF ok t])
  have s: "store_all ?init ?Z =
             (if length ?Z \<le> RESULT_CAPACITY then Inr (?init\<lparr>result_ids := ?Z\<rparr>)
              else Inl BufferOverflow)"
    using store_all_eq[of ?init ?Z] by (simp add: init_result_def)
  have found: "\<exists>m. metadata_of ?c z = Some m \<and> id' m = z \<and> defunct_flag m" if "z \<in> set ?Z" for z
    using zombie_ids_found[OF dis subtree_end_bounds(2)[OF tn] that] .
  then have all: "\<forall>z\<in>set ?Z. find_node_by_pid ?c z \<noteq> None"
    by (auto simp: metadata_of_def)
  let ?ps = "filter (\<lambda>p. 1 < p) (map (\<lambda>z. parent_id (the (metadata_of ?c z))) ?Z)"
  have ps: "concat (map (signalled_parent ?c) ?Z) = ?ps" by (rule signalled_parent_found[OF all])
  have k: "kill_zombie_parents ?c pid w =
             Some (Inr (\<lparr>result_ids = ?ps, empty_message = None\<rparr>,
                        w\<lparr>signals := signals w @ map (\<lambda>p. (p, SIGKILL)) ?ps\<rparr>))"
    if fit: "length ?Z \<le> RESULT_CAPACITY"
  proof -
    have "length ?ps \<le> length (map (\<lambda>z. parent_id (the (metadata_of ?c z))) ?Z)"
      by (rule length_filter_le)
    then have "length ?ps \<le> length ?Z" by (simp only: length_map)
    from this fit have "length ?ps \<le> RESULT_CAPACITY" by (rule le_trans)
    then have "length (result_ids (init_result None)) + length (concat (map (signalled_parent ?c) ?Z))
        \<le> RESULT_CAPACITY" by (simp only: ps) (simp add: init_result_def)
    from kill_parents_loop_eq[OF this, of w]
    have "kill_parents_loop ?c ?Z (init_result None, w) =
            Some (Inr (\<lparr>result_ids = ?ps, empty_message = None\<rparr>,
                       w\<lparr>signals := signals w @ map (\<lambda>p. (p, SIGKILL)) ?ps\<rparr>))"
      by (simp only: ps) (simp add: init_result_def)
    moreover have "kill_zombie_parents ?c pid w = kill_parents_loop ?c ?Z (init_result None, w)"
      using fit by (simp add: kill_zombie_parents_def g s)
    ultimately show ?thesis by simp
  qed
  show ?thesis
    using g s found k by (auto split: if_splits)
qed

theorem kill_zombie_parents_above_one_witness:
  "find_node_by_pid (build_process_hierarchy shared_parent_snapshot init_collection 1) 1 \<noteq> None
   \<and> get_defunct_descendants (build_process_hierarchy shared_parent_snapshot init_collection 1) 1 =
       Some (Inr \<lparr>result_ids = [6, 7, 8], empty_message = Some ''No descendant zombie process/es''\<rparr>)
   \<and> kill_zombie_parents (build_process_hierarchy shared_parent_snapshot init_collection 1) 1
        \<lparr>signals = [], stdout = []\<rparr> =
       Some (Inr (\<lparr>result_ids = [5, 5], empty_message = None\<rparr>,
                  \<lparr>signals = [(5, SIGKILL), (5, SIGKILL)], stdout = []\<rparr>))"
proof -
  let ?c = "build_process_hierarchy shared_parent_snapshot init_collection 1"
  have h: "find_node_by_pid ?c 1 \<noteq> None" by code_simp
  have g: "get_defunct_descendants ?c 1 =
       Some (Inr \<lparr>result_ids = [6, 7, 8], empty_message = Some ''No descendant zombie process/es''\<rparr>)"
    by code_simp
  have m: "map (\<lambda>z. parent_id (the (metadata_of ?c z))) [6, 7, 8] = [5, 5, 1]"
    by code_simp
  from kill_zombie_parents_above_one[OF h, of "\<lparr>signals = [], stdout = []\<rparr>"] g
  have "kill_zombie_parents ?c 1 \<lparr>signals = [], stdout = []\<rparr> =
          Some (Inr
                (\<lparr>result_ids =
                     filter (\<lambda>p. 1 < p)
                       (map (\<lambda>z. parent_id (the (metadata_of ?c z))) [6, 7, 8]),
                   empty_message = None\<rparr>,
                 \<lparr>signals = [] @
                      map (\<lambda>p. (p, SIGKILL))
                        (filter (\<lambda>p. 1 < p)
                           (map (\<lambda>z. parent_id (the (metadata_of ?c z))) [6, 7, 8])), stdout = []\<rparr>))"
    by simp
  then show ?thesis using h g unfolding m by simp
qed





text \<open>
  C1. The claim does not hold of the code: \<^verbatim>\<open>collect_indirect_descendants\<close> writes the
  grandchildren of a node and then calls itself on each grandchild, so the children of
  the grandchildren are never written. On a line of five processes below each other
  the indirect descendants of process 1 come out as 3 and 5; process 4, three parent
  links below 1, is missing, so what is returned beyond the grandchildren is not the
  set of descendants at depth three or more.
\<close>

theorem indirect_descendants_skip_depth_three:
  "get_indirect_descendants (build_process_hierarchy chain_snapshot init_collection 1) 1 =
     Some (Inr \<lparr>result_ids = [3, 5], empty_message = Some ''No non-direct descendants''\<rparr>)
   \<and> find_node_by_pid (build_process_hierarchy chain_snapshot init_collection 1) 4 = Some 3
   \<and> find_node_by_pid (build_process_hierarchy chain_snapshot init_collection 1) 1 = Some 0
   \<and> follow_parent (build_process_hierarchy chain_snapshot init_collection 1) 3 3 = Some 0
   \<and> get_grandchildren (build_process_hierarchy chain_snapshot init_collection 1) 1 =
       Some (Inr \<lparr>result_ids = [3], empty_message = Some ''No grandchildren''\<rparr>)"
  by code_simp

text \<open>
  C9. A result starts empty and every write goes to the cell after the last one
  written; the write is inside the 1000 allocated cells exactly when fewer than 1000 are
  filled, so a row of ids is collected without fault exactly when it has at most 1000
  ids. For a target that is in the tree, every operation collects such a row: the
  children, the grandchildren, the siblings and the defunct siblings on any store of
  nodes; on a built tree the indirect descendants, the defunct descendants, the
  descendants signalled by \<^verbatim>\<open>signal_all_descendants\<close> and the parents signalled by
  \<^verbatim>\<open>kill_zombie_parents\<close>. Each returns its row when the row has at most 1000 ids and
  writes past the allocation when it has more; \<^verbatim>\<open>kill_zombie_parents\<close> first collects the
  defunct descendants, so it returns when these are at most 1000 and overflows when they
  are more, and the parents it writes are never more than they are. The handlers that
  count zombies, print the status and kill the root write no id. The tree built for a
  process with 1001 defunct children is a tree on which the children, the defunct
  descendants, the signalled descendants and the zombie parents of the root overflow.
\<close>

theorem result_buffer_holds_1000:
  assumes f: "find_node_by_pid c pid = Some t"
  shows
  "store_id r v =
     (if length (result_ids r) < 1000 then Inr (r\<lparr>result_ids := result_ids r @ [v]\<rparr>)
      else Inl BufferOverflow)
   \<and> store_all (init_result msg) ids =
     (if length ids \<le> 1000 then Inr \<lparr>result_ids = ids, empty_message = msg\<rparr>
      else Inl BufferOverflow)
   \<and> get_direct_descendants c pid =
       collected (Some ''No direct descendants'')
         (map (\<lambda>child. id' (data (nodes c ! child))) (children (nodes c ! t)))
   \<and> get_grandchildren c pid =
       collected (Some ''No grandchildren'')
         (concat (map (\<lambda>child. map (\<lambda>g. id' (data (nodes c ! g))) (children (nodes c ! child)))
                    (children (nodes c ! t))))
   \<and> get_siblings c pid =
       collected (Some ''No sibling/s'')
         (case parent (nodes c ! t) of
            Some p \<Rightarrow> map (\<lambda>s. id' (data (nodes c ! s)))
                        (filter (\<lambda>s. id' (data (nodes c ! s)) \<noteq> pid) (children (nodes c ! p)))
          | None \<Rightarrow> [])
   \<and> get_defunct_siblings c pid =
       collected (Some ''No defunct sibling/s'')
         (case parent (nodes c ! t) of
            Some p \<Rightarrow> map (\<lambda>s. id' (data (nodes c ! s)))
                        (filter (\<lambda>s. id' (data (nodes c ! s)) \<noteq> pid
                                     \<and> defunct_flag (data (nodes c ! s)))
                           (children (nodes c ! p)))
          | None \<Rightarrow> [])
   \<and> obind (handle_count_defunct c pid w) (\<lambda>(res, w1). Some (Inr (result_ids res))) = Some (Inr [])
   \<and> obind (handle_process_status c pid w) (\<lambda>(res, w1). Some (Inr (result_ids res))) = Some (Inr [])
   \<and> obind (handle_kill_root c pid w) (\<lambda>(res, w1). Some (Inr (result_ids res))) = Some (Inr [])
   \<and> (c = build_process_hierarchy snap init_collection root_pid \<longrightarrow>
        get_indirect_descendants c pid =
          collected (Some ''No non-direct descendants'') (indirect_row c (length (nodes c)) t)
      \<and> get_defunct_descendants c pid =
          collected (Some ''No descendant zombie process/es'')
            (zombie_ids c (Suc t) (subtree_end c t))
      \<and> signal_all_descendants c pid sig w =
          (if length (filter (proper_descendant c pid) [0..<length (nodes c)]) \<le> 1000
           then Some (Inr
             (\<lparr>result_ids = map (\<lambda>j. id' (data (nodes c ! j)))
                              (filter (proper_descendant c pid) [0..<length (nodes c)]),
                empty_message = None\<rparr>,
              w\<lparr>signals := signals w @
                   map (\<lambda>j. (id' (data (nodes c ! j)), sig))
                     (filter (proper_descendant c pid) [0..<length (nodes c)])\<rparr>))
           else Some (Inl BufferOverflow))
      \<and> kill_zombie_parents c pid w =
          (if length (zombie_ids c (Suc t) (subtree_end c t)) \<le> 1000
           then Some (Inr
             (\<lparr>result_ids = concat (map (signalled_parent c)
                                       (zombie_ids c (Suc t) (subtree_end c t))),
                empty_message = None\<rparr>,
              w\<lparr>signals := signals w @
                   map (\<lambda>p. (p, SIGKILL))
                     (concat (map (signalled_parent c)
                                (zombie_ids c (Suc t) (subtree_end c t))))\<rparr>))
           else Some (Inl BufferOverflow))
      \<and> length (concat (map (signalled_parent c) (zombie_ids c (Suc t) (subtree_end c t))))
          \<le> length (zombie_ids c (Suc t) (subtree_end c t)))"
proof -
  have g1: "store_id r v =
     (if length (result_ids r) < 1000 then Inr (r\<lparr>result_ids := result_ids r @ [v]\<rparr>)
      else Inl BufferOverflow)"
    by (simp add: store_id_def RESULT_CAPACITY_def)
  have g0: "store_all (init_result msg) ids =
     (if length ids \<le> 1000 then Inr \<lparr>result_ids = ids, empty_message = msg\<rparr>
      else Inl BufferOverflow)"
    using store_all_eq[of "init_result msg" ids] by (simp add: init_result_def RESULT_CAPACITY_def)
  have g5: "length (concat (map (signalled_parent c) zs)) \<le> length zs" for zs
    by (induction zs) (auto simp: signalled_parent_def split: option.splits)
  have g2: "obind (handle_count_defunct c pid w) (\<lambda>(res, w1). Some (Inr (result_ids res))) = Some (Inr [])"
    by (simp add: handle_count_defunct_def init_result_def)
  have g3: "obind (handle_process_status c pid w) (\<lambda>(res, w1). Some (Inr (result_ids res))) = Some (Inr [])"
    using f by (simp add: handle_process_status_def init_result_def)
  have g4: "obind (handle_kill_root c pid w) (\<lambda>(res, w1). Some (Inr (result_ids res))) = Some (Inr [])"
    by (cases "root c") (simp_all add: handle_kill_root_def init_result_def)
  have built: "tree_ok c" if "c = build_process_hierarchy snap init_collection root_pid"
    using that build_tree_ok by simp
  have fn: "find_node_by_pid c pid \<noteq> None" using f by simp
  note rows = sibling_rows[OF f]
  note deep = get_indirect_descendants_ok[OF _ f, unfolded collected_eq]
    get_defunct_descendants_ok[OF _ f, unfolded collected_eq]
    signal_all_descendants_eq[OF _ fn, unfolded RESULT_CAPACITY_def]
    kill_zombie_parents_eq[OF _ f]
  show ?thesis
    apply (intro conjI impI)
    subgoal by (rule g1)
    subgoal by (rule g0)
    subgoal by (rule rows)
    subgoal by (rule rows)
    subgoal by (rule rows)
    subgoal by (rule rows)
    subgoal by (rule g2)
    subgoal by (rule g3)
    subgoal by (rule g4)
    subgoal by (rule deep(1), erule built)
    subgoal by (rule deep(2), erule built)
    subgoal by (rule deep(3), erule built)
    subgoal by (rule deep(4), erule built)
    subgoal by (rule g5)
    done
qed

theorem result_buffer_holds_1000_witness:
  "find_node_by_pid (build_process_hierarchy (star_snapshot 1001) init_collection 1) 1 = Some 0
   \<and> 1000 < length (children
                   (nodes (build_process_hierarchy (star_snapshot 1001) init_collection 1) ! 0))
   \<and> get_direct_descendants (build_process_hierarchy (star_snapshot 1001) init_collection 1) 1 =
       Some (Inl BufferOverflow)
   \<and> get_defunct_descendants (build_process_hierarchy (star_snapshot 1001) init_collection 1) 1 =
       Some (Inl BufferOverflow)
   \<and> signal_all_descendants (build_process_hierarchy (star_snapshot 1001) init_collection 1) 1
         SIGSTOP \<lparr>signals = [], stdout = []\<rparr> =
       Some (Inl BufferOverflow)
   \<and> kill_zombie_parents (build_process_hierarchy (star_snapshot 1001) init_collection 1) 1
         \<lparr>signals = [], stdout = []\<rparr> =
       Some (Inl BufferOverflow)
   \<and> find_node_by_pid (build_process_hierarchy example_snapshot init_collection 1) 2 = Some 1
   \<and> get_direct_descendants (build_process_hierarchy example_snapshot init_collection 1) 2 =
       Some (Inr \<lparr>result_ids = [4], empty_message = Some ''No direct descendants''\<rparr>)
   \<and> get_siblings (build_process_hierarchy example_snapshot init_collection 1) 2 =
       Some (Inr \<lparr>result_ids = [3], empty_message = Some ''No sibling/s''\<rparr>)
   \<and> get_defunct_siblings (build_process_hierarchy example_snapshot init_collection 1) 2 =
       Some (Inr \<lparr>result_ids = [], empty_message = Some ''No defunct sibling/s''\<rparr>)
   \<and> get_defunct_descendants (build_process_hierarchy example_snapshot init_collection 1) 2 =
       Some (Inr \<lparr>result_ids = [4], empty_message = Some ''No descendant zombie process/es''\<rparr>)
   \<and> signal_all_descendants (build_process_hierarchy example_snapshot init_collection 1) 2
         SIGSTOP \<lparr>signals = [], stdout = []\<rparr> =
       Some (Inr (\<lparr>result_ids = [4], empty_message = None\<rparr>,
                  \<lparr>signals = [(4, SIGSTOP)], stdout = []\<rparr>))
   \<and> kill_zombie_parents (build_process_hierarchy example_snapshot init_collection 1) 2
         \<lparr>signals = [], stdout = []\<rparr> =
       Some (Inr (\<lparr>result_ids = [2], empty_message = None\<rparr>,
                  \<lparr>signals = [(2, SIGKILL)], stdout = []\<rparr>))
   \<and> find_node_by_pid (build_process_hierarchy example_snapshot init_collection 1) 3 = Some 3
   \<and> get_defunct_siblings (build_process_hierarchy example_snapshot init_collection 1) 3 =
       Some (Inr \<lparr>result_ids = [2], empty_message = Some ''No defunct sibling/s''\<rparr>)
   \<and> find_node_by_pid (build_process_hierarchy example_snapshot init_collection 1) 1 = Some 0
   \<and> get_grandchildren (build_process_hierarchy example_snapshot init_collection 1) 1 =
       Some (Inr \<lparr>result_ids = [4], empty_message = Some ''No grandchildren''\<rparr>)
   \<and> get_indirect_descendants (build_process_hierarchy example_snapshot init_collection 1) 1 =
       Some (Inr \<lparr>result_ids = [4], empty_message = Some ''No non-direct descendants''\<rparr>)
   \<and> get_siblings (build_process_hierarchy example_snapshot init_collection 1) 1 =
       Some (Inr \<lparr>result_ids = [], empty_message = Some ''No sibling/s''\<rparr>)"
proof -
  let ?c = "build_process_hierarchy (star_snapshot 1001) init_collection 1"
  let ?e = "build_process_hierarchy example_snapshot init_collection 1"
  let ?w = "\<lparr>signals = [], stdout = []\<rparr>"
  have f: "find_node_by_pid ?c 1 = Some 0" by (rule star_build(1))
  have f1: "find_node_by_pid ?e 1 = Some 0" by code_simp
  have f2: "find_node_by_pid ?e 2 = Some 1" by code_simp
  have f3: "find_node_by_pid ?e 3 = Some 3" by code_simp
  note star = result_buffer_holds_1000[OF f, where snap = "star_snapshot 1001" and root_pid = 1
      and w = ?w and sig = SIGSTOP]
  note ex1 = result_buffer_holds_1000[OF f1, where snap = example_snapshot and root_pid = 1
      and w = ?w and sig = SIGSTOP]
  note ex2 = result_buffer_holds_1000[OF f2, where snap = example_snapshot and root_pid = 1
      and w = ?w and sig = SIGSTOP]
  note ex3 = result_buffer_holds_1000[OF f3, where snap = example_snapshot and root_pid = 1
      and w = ?w and sig = SIGSTOP]
  note star_built = star[THEN conjunct2, THEN conjunct2, THEN conjunct2, THEN conjunct2,
      THEN conjunct2, THEN conjunct2, THEN conjunct2, THEN conjunct2, THEN conjunct2,
      THEN mp, OF refl]
  note ex1_built = ex1[THEN conjunct2, THEN conjunct2, THEN conjunct2, THEN conjunct2,
      THEN conjunct2, THEN conjunct2, THEN conjunct2, THEN conjunct2, THEN conjunct2,
      THEN mp, OF refl]
  note ex2_built = ex2[THEN conjunct2, THEN conjunct2, THEN conjunct2, THEN conjunct2,
      THEN conjunct2, THEN conjunct2, THEN conjunct2, THEN conjunct2, THEN conjunct2,
      THEN mp, OF refl]
  have par: "parents_ok ?c" using build_tree_ok[of "star_snapshot 1001" 1] by (simp add: tree_ok_def)
  have pos: "0 < length (nodes ?c)" by (rule le_less_trans[OF le0 star_build(2)])
  have l: "1000 < length (children (nodes ?c ! 0))"
    using star_build(2)[of 1001] by (simp add: star_build(4))
  have z: "1000 < length (zombie_ids ?c (Suc 0) (subtree_end ?c 0))"
    using star_zombies_length[of 1001] by (simp add: subtree_end_root[OF par pos])
  have d: "1000 < length (filter (proper_descendant ?c 1) [0..<length (nodes ?c)])"
    using star_descendants[of 1001] by simp
  note l' = l[folded not_le] and z' = z[folded not_le] and d' = d[folded not_le]
  have s1: "get_direct_descendants ?c 1 = Some (Inl BufferOverflow)"
    by (subst star[THEN conjunct2, THEN conjunct2, THEN conjunct1]) (simp add: collected_def l')
  have s2: "get_defunct_descendants ?c 1 = Some (Inl BufferOverflow)"
    by (subst star_built[THEN conjunct2, THEN conjunct1]) (simp add: collected_def z')
  have s3: "signal_all_descendants ?c 1 SIGSTOP ?w = Some (Inl BufferOverflow)"
    by (subst star_built[THEN conjunct2, THEN conjunct2, THEN conjunct1]) (simp add: d')
  have s4: "kill_zombie_parents ?c 1 ?w = Some (Inl BufferOverflow)"
    by (subst star_built[THEN conjunct2, THEN conjunct2, THEN conjunct2, THEN conjunct1]) (simp add: z')
  have a1: "get_direct_descendants ?e 2 =
       Some (Inr \<lparr>result_ids = [4], empty_message = Some ''No direct descendants''\<rparr>)"
    by (subst ex2[THEN conjunct2, THEN conjunct2, THEN conjunct1]) code_simp
  have a2: "get_siblings ?e 2 =
       Some (Inr \<lparr>result_ids = [3], empty_message = Some ''No sibling/s''\<rparr>)"
    by (subst ex2[THEN conjunct2, THEN conjunct2, THEN conjunct2, THEN conjunct2, THEN conjunct1])
      code_simp
  have a3: "get_defunct_siblings ?e 2 =
       Some (Inr \<lparr>result_ids = [], empty_message = Some ''No defunct sibling/s''\<rparr>)"
    by (subst ex2[THEN conjunct2, THEN conjunct2, THEN conjunct2, THEN conjunct2, THEN conjunct2,
          THEN conjunct1]) code_simp
  have a4: "get_defunct_descendants ?e 2 =
       Some (Inr \<lparr>result_ids = [4], empty_message = Some ''No descendant zombie process/es''\<rparr>)"
    by (subst ex2_built[THEN conjunct2, THEN conjunct1]) code_simp
  have a5: "signal_all_descendants ?e 2 SIGSTOP ?w =
       Some (Inr (\<lparr>result_ids = [4], empty_message = None\<rparr>,
                  \<lparr>signals = [(4, SIGSTOP)], stdout = []\<rparr>))"
    by (subst ex2_built[THEN conjunct2, THEN conjunct2, THEN conjunct1]) code_simp
  have a6: "kill_zombie_parents ?e 2 ?w =
       Some (Inr (\<lparr>result_ids = [2], empty_message = None\<rparr>,
                  \<lparr>signals = [(2, SIGKILL)], stdout = []\<rparr>))"
    by (subst ex2_built[THEN conjunct2, THEN conjunct2, THEN conjunct2, THEN conjunct1]) code_simp
  have b1: "get_defunct_siblings ?e 3 =
       Some (Inr \<lparr>result_ids = [2], empty_message = Some ''No defunct sibling/s''\<rparr>)"
    by (subst ex3[THEN conjunct2, THEN conjunct2, THEN conjunct2, THEN conjunct2, THEN conjunct2,
          THEN conjunct1]) code_simp
  have c1: "get_grandchildren ?e 1 =
       Some (Inr \<lparr>result_ids = [4], empty_message = Some ''No grandchildren''\<rparr>)"
    by (subst ex1[THEN conjunct2, THEN conjunct2, THEN conjunct2, THEN conjunct1]) code_simp
  have c2: "get_indirect_descendants ?e 1 =
       Some (Inr \<lparr>result_ids = [4], empty_message = Some ''No non-direct descendants''\<rparr>)"
    by (subst ex1_built[THEN conjunct1]) code_simp
  have c3: "get_siblings ?e 1 =
       Some (Inr \<lparr>result_ids = [], empty_message = Some ''No sibling/s''\<rparr>)"
    by (subst ex1[THEN conjunct2, THEN conjunct2, THEN conjunct2, THEN conjunct2, THEN conjunct1])
      code_simp
  from f l s1 s2 s3 s4 f2 a1 a2 a3 a4 a5 a6 f3 b1 f1 c1 c2 c3 show ?thesis
    by (intro conjI)
qed


end
